theory Spec2Isabelle
  imports Complex_Main
begin

section \<open>Buffers, loops and conversions\<close>

text \<open>
  A \<^verbatim>\<open>double *\<close> argument is a buffer of reals: the values of type \<^verbatim>\<open>double\<close> are
  taken as real numbers, so every statement below is one of exact arithmetic, except
  for \<open>get_gpr_weights_double\<close>, which rounds as the machine does. A function
  of \<^verbatim>\<open>lib_gpr.c\<close> takes the contents of the buffers it is given and returns the
  contents of the buffers it writes; distinct pointer arguments are distinct buffers.
  Every \<^verbatim>\<open>malloc\<close> is taken to succeed; the block it returns has contents nobody chose:
  they are one more argument of the model. A buffer of \<open>ns * ns\<close> values exists, so
  \<open>ns * ns\<close> is computed without wrap-around in \<^verbatim>\<open>unsigned long\<close>.
\<close>

type_synonym buffer = "real list"

text \<open>
  The ways a call does not return: \<^verbatim>\<open>assert(info == 0)\<close> fails with the status of the
  LAPACK routine, or a BLAS routine rejects an argument and calls \<^verbatim>\<open>xerbla\<close>, which
  prints a message and stops the program.
\<close>

datatype error = AssertFailed int | Xerbla

text \<open>\<^verbatim>\<open>for (i = 0; i < n; i++) body\<close>, on the state the body changes.\<close>

primrec for_loop :: "nat \<Rightarrow> (nat \<Rightarrow> 's \<Rightarrow> 's) \<Rightarrow> 's \<Rightarrow> 's" where
  "for_loop 0 body s = s"
| "for_loop (Suc n) body s = body n (for_loop n body s)"

text \<open>
  \<^verbatim>\<open>for (j = lo; j < hi; j++) body\<close>: \<open>hi - lo\<close> rounds, none when \<open>hi \<le> lo\<close>.
\<close>

definition for_range :: "nat \<Rightarrow> nat \<Rightarrow> (nat \<Rightarrow> 's \<Rightarrow> 's) \<Rightarrow> 's \<Rightarrow> 's" where
  "for_range lo hi body s = for_loop (hi - lo) (\<lambda>d. body (lo + d)) s"

text \<open>
  The conversion \<^verbatim>\<open>(int) ns\<close> of an \<^verbatim>\<open>unsigned long\<close> to a 32-bit \<^verbatim>\<open>int\<close>: the low
  32 bits, read in two's complement.
\<close>

definition c_int :: "nat \<Rightarrow> int" where
  "c_int n = (let m = n mod 2 ^ 32 in if m < 2 ^ 31 then int m else int m - 2 ^ 32)"

text \<open>
  The matrices of BLAS and LAPACK are stored by columns: entry \<open>(i, j)\<close> of a matrix
  with leading dimension \<open>ld\<close> is at offset \<open>i + j * ld\<close>.
\<close>

definition mat :: "nat \<Rightarrow> buffer \<Rightarrow> nat \<Rightarrow> nat \<Rightarrow> real" where
  "mat ld a i j = a ! (i + j * ld)"

text \<open>
  A routine that overwrites the entries \<open>(i, j)\<close> chosen by \<open>P\<close> of a matrix stored with
  leading dimension \<open>ld\<close> and leaves the rest of the buffer as it is.
\<close>

definition overwrite :: "nat \<Rightarrow> (nat \<Rightarrow> nat \<Rightarrow> bool) \<Rightarrow> (nat \<Rightarrow> nat \<Rightarrow> real) \<Rightarrow> buffer \<Rightarrow> buffer" where
  "overwrite ld P f b =
     map (\<lambda>k. if P (k mod ld) (k div ld) then f (k mod ld) (k div ld) else b ! k) [0..<length b]"

section \<open>The BLAS and LAPACK routines called by the library\<close>

text \<open>
  The routines are those of the reference BLAS and LAPACK, with the option letters fixed
  as \<^verbatim>\<open>lib_gpr.c\<close> passes them and every increment equal to one. Each model computes, in
  exact arithmetic, what the routine's documentation says it leaves in its output.
\<close>

text \<open>\<^verbatim>\<open>dcopy\<close>: \<open>y[i] := x[i]\<close> for \<open>i < n\<close>; nothing when \<open>n \<le> 0\<close>.\<close>

definition dcopy :: "int \<Rightarrow> buffer \<Rightarrow> buffer \<Rightarrow> buffer" where
  "dcopy n x y = (if n \<le> 0 then y else for_loop (nat n) (\<lambda>i b. b[i := x ! i]) y)"

text \<open>\<^verbatim>\<open>daxpy\<close>: \<open>y[i] := y[i] + alpha * x[i]\<close> for \<open>i < n\<close>; nothing when \<open>n \<le> 0\<close>.\<close>

definition daxpy :: "int \<Rightarrow> real \<Rightarrow> buffer \<Rightarrow> buffer \<Rightarrow> buffer" where
  "daxpy n alpha x y =
     (if n \<le> 0 then y else for_loop (nat n) (\<lambda>i b. b[i := b ! i + alpha * x ! i]) y)"

text \<open>\<^verbatim>\<open>ddot\<close>: the dot product of the first \<open>n\<close> entries; zero when \<open>n \<le> 0\<close>.\<close>

definition ddot :: "int \<Rightarrow> buffer \<Rightarrow> buffer \<Rightarrow> real" where
  "ddot n x y = (if n \<le> 0 then 0 else (\<Sum>i<nat n. x ! i * y ! i))"

text \<open>
  \<^verbatim>\<open>dgemv\<close> with \<^verbatim>\<open>TRANS = 'T'\<close>: \<open>y := alpha * A\<^sup>T * x + beta * y\<close> for an \<open>m\<close> by \<open>n\<close>
  matrix \<open>A\<close>.
\<close>

definition dgemv_T :: "int \<Rightarrow> int \<Rightarrow> real \<Rightarrow> buffer \<Rightarrow> int \<Rightarrow> buffer \<Rightarrow> real \<Rightarrow> buffer \<Rightarrow> error + buffer" where
  "dgemv_T m n alpha a lda x beta y =
     (if m < 0 \<or> n < 0 \<or> lda < max 1 m then Inl Xerbla
      else Inr (overwrite 1 (\<lambda>i j. j < nat n)
                  (\<lambda>i j. alpha * (\<Sum>l<nat m. mat (nat lda) a l j * x ! l) + beta * y ! j) y))"

text \<open>
  \<^verbatim>\<open>dgemm\<close> with \<^verbatim>\<open>TRANSA = 'T'\<close>, \<^verbatim>\<open>TRANSB = 'N'\<close>: \<open>C := alpha * A\<^sup>T * B + beta * C\<close> for
  an \<open>m\<close> by \<open>n\<close> matrix \<open>C\<close>, a \<open>k\<close> by \<open>m\<close> matrix \<open>A\<close> and a \<open>k\<close> by \<open>n\<close> matrix \<open>B\<close>.
\<close>

definition dgemm_TN :: "int \<Rightarrow> int \<Rightarrow> int \<Rightarrow> real \<Rightarrow> buffer \<Rightarrow> int \<Rightarrow> buffer \<Rightarrow> int \<Rightarrow> real \<Rightarrow> buffer \<Rightarrow> int \<Rightarrow> error + buffer" where
  "dgemm_TN m n k alpha a lda b ldb beta c ldc =
     (if m < 0 \<or> n < 0 \<or> k < 0 \<or> lda < max 1 k \<or> ldb < max 1 k \<or> ldc < max 1 m then Inl Xerbla
      else Inr (overwrite (nat ldc) (\<lambda>i j. i < nat m \<and> j < nat n)
                  (\<lambda>i j. alpha * (\<Sum>l<nat k. mat (nat lda) a l i * mat (nat ldb) b l j)
                          + beta * mat (nat ldc) c i j) c))"

text \<open>
  \<^verbatim>\<open>dsyrk\<close> with \<^verbatim>\<open>UPLO = 'L'\<close>, \<^verbatim>\<open>TRANS = 'T'\<close>: \<open>C := alpha * A\<^sup>T * A + beta * C\<close> for an
  \<open>n\<close> by \<open>n\<close> matrix \<open>C\<close> and a \<open>k\<close> by \<open>n\<close> matrix \<open>A\<close>; only the entries of \<open>C\<close> on and
  below the diagonal are read and written.
\<close>

definition dsyrk_LT :: "int \<Rightarrow> int \<Rightarrow> real \<Rightarrow> buffer \<Rightarrow> int \<Rightarrow> real \<Rightarrow> buffer \<Rightarrow> int \<Rightarrow> error + buffer" where
  "dsyrk_LT n k alpha a lda beta c ldc =
     (if n < 0 \<or> k < 0 \<or> lda < max 1 k \<or> ldc < max 1 n then Inl Xerbla
      else Inr (overwrite (nat ldc) (\<lambda>i j. j \<le> i \<and> i < nat n)
                  (\<lambda>i j. alpha * (\<Sum>l<nat k. mat (nat lda) a l i * mat (nat lda) a l j)
                          + beta * mat (nat ldc) c i j) c))"

text \<open>
  Forward substitution: the solution \<open>x\<close> of \<open>L x = b\<close> for a lower triangular \<open>L\<close>,
  entry by entry.
\<close>

function fsol :: "(nat \<Rightarrow> nat \<Rightarrow> real) \<Rightarrow> (nat \<Rightarrow> real) \<Rightarrow> nat \<Rightarrow> real" where
  "fsol L b i = (b i - (\<Sum>k<i. L i k * fsol L b k)) / L i i"
  by pat_completeness auto
termination
  by (relation "measure (\<lambda>(L, b, i). i)") auto

text \<open>
  Back substitution: the solution \<open>x\<close> of \<open>L\<^sup>T x = y\<close> for a lower triangular \<open>L\<close> of order
  \<open>n\<close>, from the last entry to the first.
\<close>

function bsol :: "nat \<Rightarrow> (nat \<Rightarrow> nat \<Rightarrow> real) \<Rightarrow> (nat \<Rightarrow> real) \<Rightarrow> nat \<Rightarrow> real" where
  "bsol n L y i = (y i - (\<Sum>k\<in>{Suc i..<n}. L k i * bsol n L y k)) / L i i"
  by pat_completeness auto
termination
  by (relation "measure (\<lambda>(n, L, y, i). n - i)") auto

text \<open>
  \<^verbatim>\<open>dtrsm\<close> with \<^verbatim>\<open>SIDE = 'L'\<close>, \<^verbatim>\<open>UPLO = 'L'\<close>, \<^verbatim>\<open>TRANSA = 'N'\<close>, \<^verbatim>\<open>DIAG = 'N'\<close>: the
  \<open>m\<close> by \<open>n\<close> matrix \<open>B\<close> is overwritten with the solution \<open>X\<close> of \<open>A X = alpha * B\<close>,
  where only the entries of \<open>A\<close> on and below the diagonal are read.
\<close>

definition dtrsm_LLNN :: "int \<Rightarrow> int \<Rightarrow> real \<Rightarrow> buffer \<Rightarrow> int \<Rightarrow> buffer \<Rightarrow> int \<Rightarrow> error + buffer" where
  "dtrsm_LLNN m n alpha a lda b ldb =
     (if m < 0 \<or> n < 0 \<or> lda < max 1 m \<or> ldb < max 1 m then Inl Xerbla
      else Inr (overwrite (nat ldb) (\<lambda>i j. i < nat m \<and> j < nat n)
                  (\<lambda>i j. fsol (mat (nat lda) a) (\<lambda>r. alpha * mat (nat ldb) b r j) i) b))"

text \<open>
  \<^verbatim>\<open>dtrmv\<close> with \<^verbatim>\<open>UPLO = 'L'\<close>, \<^verbatim>\<open>TRANS = 'N'\<close>, \<^verbatim>\<open>DIAG = 'N'\<close>: \<open>x := A x\<close> for a lower
  triangular \<open>A\<close> of order \<open>n\<close>.
\<close>

definition dtrmv_LNN :: "int \<Rightarrow> buffer \<Rightarrow> int \<Rightarrow> buffer \<Rightarrow> error + buffer" where
  "dtrmv_LNN n a lda x =
     (if n < 0 \<or> lda < max 1 n then Inl Xerbla
      else Inr (overwrite 1 (\<lambda>i j. j < nat n)
                  (\<lambda>i j. \<Sum>k<Suc j. mat (nat lda) a j k * x ! k) x))"

text \<open>
  The Cholesky factor, entry by entry: \<open>chol A i j\<close> is entry \<open>(i, j)\<close>, \<open>j \<le> i\<close>, of the
  lower triangular \<open>L\<close> with \<open>L L\<^sup>T = A\<close>, computed from the entries of \<open>A\<close> on and below
  the diagonal. \<open>pivot A j\<close> is the number whose square root is the diagonal entry; the
  factorization stops at the first \<open>j\<close> where it is not positive.
\<close>

function chol :: "(nat \<Rightarrow> nat \<Rightarrow> real) \<Rightarrow> nat \<Rightarrow> nat \<Rightarrow> real" where
  "chol A i j =
     (if i = j then sqrt (A j j - (\<Sum>k<j. chol A j k * chol A j k))
      else (A i j - (\<Sum>k<j. chol A i k * chol A j k)) / chol A j j)"
  by pat_completeness auto
termination
  by (relation "measure (\<lambda>(A, i, j). 2 * j + (if i = j then 0 else 1))") auto

definition pivot :: "(nat \<Rightarrow> nat \<Rightarrow> real) \<Rightarrow> nat \<Rightarrow> real" where
  "pivot A j = A j j - (\<Sum>k<j. chol A j k * chol A j k)"

text \<open>
  \<^verbatim>\<open>dpotrf\<close> with \<^verbatim>\<open>UPLO = 'L'\<close>: the status and the buffer. Status \<open>0\<close>: the entries on
  and below the diagonal hold the factor, the entries above it are not touched. Status
  \<open>j + 1\<close>: the leading minor of order \<open>j + 1\<close> is not positive definite; the columns
  before \<open>j\<close> hold the factor and entry \<open>(j, j)\<close> the pivot. A negative status reports
  an illegal argument.
\<close>

definition dpotrf_L :: "int \<Rightarrow> buffer \<Rightarrow> int \<Rightarrow> buffer \<times> int" where
  "dpotrf_L n a lda =
     (if n < 0 then (a, - 2)
      else if lda < max 1 n then (a, - 4)
      else
        (case find (\<lambda>j. pivot (mat (nat lda) a) j \<le> 0) [0..<nat n] of
           None \<Rightarrow>
             (overwrite (nat lda) (\<lambda>i j. j \<le> i \<and> i < nat n) (chol (mat (nat lda) a)) a, 0)
         | Some j \<Rightarrow>
             (overwrite (nat lda) (\<lambda>i c. c \<le> i \<and> i < nat n \<and> (c < j \<or> i = j))
                (\<lambda>i c. if c < j then chol (mat (nat lda) a) i c else pivot (mat (nat lda) a) j) a,
              int j + 1)))"

text \<open>
  \<^verbatim>\<open>dpotrs\<close> with \<^verbatim>\<open>UPLO = 'L'\<close>: each of the \<open>nrhs\<close> columns \<open>b\<close> of \<open>B\<close> is overwritten
  with the solution of \<open>L L\<^sup>T x = b\<close>, a forward substitution followed by a back
  substitution.
\<close>

definition dpotrs_L :: "nat \<Rightarrow> nat \<Rightarrow> buffer \<Rightarrow> nat \<Rightarrow> buffer \<Rightarrow> nat \<Rightarrow> buffer" where
  "dpotrs_L n nrhs a lda b ldb =
     overwrite ldb (\<lambda>i j. i < n \<and> j < nrhs)
       (\<lambda>i j. bsol n (mat lda a) (fsol (mat lda a) (\<lambda>r. mat ldb b r j)) i) b"

text \<open>
  \<^verbatim>\<open>dposv\<close> with \<^verbatim>\<open>UPLO = 'L'\<close>: checks its arguments, factorizes with \<^verbatim>\<open>dpotrf\<close> and,
  when that succeeded, solves with \<^verbatim>\<open>dpotrs\<close>. Returns the matrix buffer, the
  right-hand-side buffer and the status.
\<close>

definition dposv_L :: "int \<Rightarrow> int \<Rightarrow> buffer \<Rightarrow> int \<Rightarrow> buffer \<Rightarrow> int \<Rightarrow> buffer \<times> buffer \<times> int" where
  "dposv_L n nrhs a lda b ldb =
     (if n < 0 then (a, b, - 2)
      else if nrhs < 0 then (a, b, - 3)
      else if lda < max 1 n then (a, b, - 5)
      else if ldb < max 1 n then (a, b, - 7)
      else
        (case dpotrf_L n a lda of
           (a', info) \<Rightarrow>
             if info = 0 then (a', dpotrs_L (nat n) (nat nrhs) a' (nat lda) b (nat ldb), 0)
             else (a', b, info)))"

section \<open>The functions of lib\_gpr.c\<close>

text \<open>The macro \<^verbatim>\<open>PI\<close>.\<close>

definition PI :: real where
  "PI = 314159265358979 / 10 ^ 14"

text \<open>
  \<^verbatim>\<open>get_gpr_weights\<close>: returns the final contents of \<^verbatim>\<open>wt\<close> and \<^verbatim>\<open>krn_chd\<close>; the buffers
  \<^verbatim>\<open>krn\<close> and \<^verbatim>\<open>y\<close> are only read. The parameter \<^verbatim>\<open>dim\<close> is written \<open>dim'\<close>.
\<close>

definition get_gpr_weights :: "buffer \<Rightarrow> buffer \<Rightarrow> buffer \<Rightarrow> nat \<Rightarrow> nat \<Rightarrow> buffer \<Rightarrow> error + buffer \<times> buffer" where
  "get_gpr_weights wt krn_chd krn ns dim' y =
     (let krn_chd1 = for_loop (ns * ns) (\<lambda>i b. b[i := krn ! i]) krn_chd;
          eps = 1 / 10 ^ 7;
          krn_chd2 = for_loop ns (\<lambda>i b. b[i * ns + i := b ! (i * ns + i) + eps]) krn_chd1;
          wt1 = for_loop ns (\<lambda>i b. b[i := y ! i]) wt;
          N = c_int ns; LDA = c_int ns; LDB = c_int ns; NRHS = 1
      in case dposv_L N NRHS krn_chd2 LDA wt1 LDB of
           (krn_chd3, wt2, info) \<Rightarrow>
             if info \<noteq> 0 then Inl (AssertFailed info) else Inr (wt2, krn_chd3))"

text \<open>
  Rounding to the nearest integer, ties to the even one.
\<close>

definition round_even :: "real \<Rightarrow> int" where
  "round_even x =
     (let f = \<lfloor>x\<rfloor>
      in if x - of_int f < 1 / 2 then f
         else if 1 / 2 < x - of_int f then f + 1
         else if even f then f else f + 1)"

text \<open>
  The value of type \<^verbatim>\<open>double\<close> (IEEE 754 binary64, round to nearest, ties to even)
  that a real number rounds to: for \<open>2\<^sup>e \<le> |x| < 2\<^sup>e\<^sup>+\<^sup>1\<close> the doubles are the integer
  multiples of \<open>2\<^sup>e\<^sup>-\<^sup>5\<^sup>2\<close>, and of \<open>2\<^sup>-\<^sup>1\<^sup>0\<^sup>7\<^sup>4\<close> below \<open>2\<^sup>-\<^sup>1\<^sup>0\<^sup>2\<^sup>2\<close>. An overflow to infinity has
  no value here.
\<close>

definition double_round :: "real \<Rightarrow> real" where
  "double_round x =
     (if x = 0 then 0
      else (let e = max \<lfloor>log 2 \<bar>x\<bar>\<rfloor> (- 1022);
                u = 2 powi (e - 52)
            in of_int (round_even (x / u)) * u))"

text \<open>
  \<^verbatim>\<open>get_gpr_weights\<close> with the arithmetic of \<^verbatim>\<open>lib_gpr.c\<close> itself as the machine does it:
  \<^verbatim>\<open>eps = 1E-7\<close> is the double nearest to \<open>1e-7\<close>, and \<^verbatim>\<open>krn_chd[i * ns + i] += eps\<close>
  stores the sum rounded to a double. The routine \<^verbatim>\<open>dposv\<close> stays exact on the doubles
  it is given, which is the most favourable case for its status.
\<close>

definition get_gpr_weights_double :: "buffer \<Rightarrow> buffer \<Rightarrow> buffer \<Rightarrow> nat \<Rightarrow> nat \<Rightarrow> buffer \<Rightarrow> error + buffer \<times> buffer" where
  "get_gpr_weights_double wt krn_chd krn ns dim' y =
     (let krn_chd1 = for_loop (ns * ns) (\<lambda>i b. b[i := krn ! i]) krn_chd;
          eps = double_round (1 / 10 ^ 7);
          krn_chd2 = for_loop ns
            (\<lambda>i b. b[i * ns + i := double_round (b ! (i * ns + i) + eps)]) krn_chd1;
          wt1 = for_loop ns (\<lambda>i b. b[i := y ! i]) wt;
          N = c_int ns; LDA = c_int ns; LDB = c_int ns; NRHS = 1
      in case dposv_L N NRHS krn_chd2 LDA wt1 LDB of
           (krn_chd3, wt2, info) \<Rightarrow>
             if info \<noteq> 0 then Inl (AssertFailed info) else Inr (wt2, krn_chd3))"

text \<open>\<^verbatim>\<open>gpr_predict\<close>: returns the final contents of \<^verbatim>\<open>yp\<close>.\<close>

definition gpr_predict :: "buffer \<Rightarrow> buffer \<Rightarrow> buffer \<Rightarrow> nat \<Rightarrow> nat \<Rightarrow> error + buffer" where
  "gpr_predict yp wt krnp np ns =
     (let M = c_int ns; N = c_int np; LDA = M; alph = 1; bet = 0
      in dgemv_T M N alph krnp LDA wt bet yp)"

text \<open>
  \<^verbatim>\<open>get_var_mat\<close>: \<open>V0\<close> is the block that \<^verbatim>\<open>malloc\<close> returns. The function writes
  \<^verbatim>\<open>var\<close> and, through \<^verbatim>\<open>dposv\<close>, its argument \<^verbatim>\<open>krn\<close>: it returns the final contents
  of both.
\<close>

definition get_var_mat :: "buffer \<Rightarrow> buffer \<Rightarrow> buffer \<Rightarrow> buffer \<Rightarrow> buffer \<Rightarrow> nat \<Rightarrow> nat \<Rightarrow> error + buffer \<times> buffer" where
  "get_var_mat V0 var krnpp krnp krn np ns =
     (let eps = 1 / 10 ^ 7;
          krn1 = for_loop ns (\<lambda>i b. b[i * ns + i := b ! (i * ns + i) + eps]) krn;
          V1 = for_loop (ns * np) (\<lambda>i b. b[i := krnp ! i]) V0;
          N = c_int ns; NRHS = c_int np; LDA = N; LDB = N
      in case dposv_L N NRHS krn1 LDA V1 LDB of
           (krn2, V2, info) \<Rightarrow>
             if info \<noteq> 0 then Inl (AssertFailed info)
             else
               (let var1 = for_loop (np * np) (\<lambda>i b. b[i := krnpp ! i]) var;
                    N = c_int ns; M = c_int np; LDA = N; LDB = N; LDC = M;
                    alph = - 1; bet = 1
                in case dgemm_TN M M N alph krnp LDA V2 LDB bet var1 LDC of
                     Inl e \<Rightarrow> Inl e
                   | Inr var2 \<Rightarrow> Inr (var2, krn2)))"

text \<open>
  The two nested loops that end \<^verbatim>\<open>get_var_mat_chd\<close>: for \<open>i < j\<close>, the value at offset
  \<open>i * np + j\<close> is stored at offset \<open>j * np + i\<close>.
\<close>

definition mirror :: "nat \<Rightarrow> buffer \<Rightarrow> buffer" where
  "mirror np v =
     for_loop np (\<lambda>i. for_range (i + 1) np (\<lambda>j b. b[j * np + i := b ! (i * np + j)])) v"

text \<open>
  \<^verbatim>\<open>get_var_mat_chd\<close>: \<open>V0\<close> is the block that \<^verbatim>\<open>malloc\<close> returns. Returns the final
  contents of \<^verbatim>\<open>var\<close>; the other buffers are only read.
\<close>

definition get_var_mat_chd :: "buffer \<Rightarrow> buffer \<Rightarrow> buffer \<Rightarrow> buffer \<Rightarrow> buffer \<Rightarrow> nat \<Rightarrow> nat \<Rightarrow> error + buffer" where
  "get_var_mat_chd V0 var krnpp krnp krn_chd np ns =
     (let V1 = for_loop (ns * np) (\<lambda>i b. b[i := krnp ! i]) V0;
          N = c_int ns; NRHS = c_int np; LDA = N; LDB = N; alph = 1
      in case dtrsm_LLNN N NRHS alph krn_chd LDA V1 LDB of
           Inl e \<Rightarrow> Inl e
         | Inr V2 \<Rightarrow>
             (let var1 = for_loop (np * np) (\<lambda>i b. b[i := krnpp ! i]) var;
                  N = c_int ns; M = c_int np; LDC = M; alph = - 1; bet = 1
              in case dsyrk_LT M N alph V2 N bet var1 LDC of
                   Inl e \<Rightarrow> Inl e
                 | Inr var2 \<Rightarrow>
                     Inr (mirror np var2)))"

text \<open>
  \<^verbatim>\<open>get_log_likelihood\<close>: \<^verbatim>\<open>ret\<close> is \<open>None\<close> for a null pointer. Returns the value of
  the function and the final contents of \<^verbatim>\<open>ret\<close>.
\<close>

definition get_log_likelihood :: "buffer \<Rightarrow> buffer \<Rightarrow> nat \<Rightarrow> buffer \<Rightarrow> buffer option \<Rightarrow> real \<times> buffer option" where
  "get_log_likelihood wt y ns krn_chd ret =
     (let N = c_int ns;
          ywt = ddot N y wt;
          log_det_k = for_loop ns (\<lambda>i s. s + 2 * ln (krn_chd ! (i * ns + i))) 0;
          llhd = - 0.5 * ywt - 0.5 * log_det_k - 0.5 * real ns * ln (2 * PI)
      in (llhd,
          case ret of
            None \<Rightarrow> None
          | Some r \<Rightarrow>
              Some (r[0 := - 0.5 * ywt, 1 := - log_det_k, 2 := - 0.5 * real ns * ln (2 * PI)])))"

text \<open>
  Modelled from the spec: \<^verbatim>\<open>fill_normal_rnd\<close> of \<^verbatim>\<open>lib_rng\<close>, which is not among the
  sources. It fills the first \<open>count\<close> entries of the buffer with standard normal
  variates and is deterministic for a fixed seed: \<open>draw count seed\<close> is the list of the
  variates it writes.
\<close>

definition fill_normal_rnd :: "(nat \<Rightarrow> int \<Rightarrow> buffer) \<Rightarrow> buffer \<Rightarrow> nat \<Rightarrow> int \<Rightarrow> buffer" where
  "fill_normal_rnd draw y count seed = for_loop count (\<lambda>i b. b[i := draw count seed ! i]) y"

text \<open>
  \<^verbatim>\<open>sample_gp\<close>: \<open>lkxx0\<close> is the block that \<^verbatim>\<open>malloc\<close> returns, \<open>mn\<close> is \<open>None\<close> for a
  null pointer. Returns the final contents of \<^verbatim>\<open>y\<close>.
\<close>

definition sample_gp :: "(nat \<Rightarrow> int \<Rightarrow> buffer) \<Rightarrow> buffer \<Rightarrow> buffer \<Rightarrow> buffer option \<Rightarrow> buffer \<Rightarrow> nat \<Rightarrow> int \<Rightarrow> error + buffer" where
  "sample_gp draw lkxx0 y mn kxx ns seed =
     (let N = c_int (ns * ns);
          lkxx1 = dcopy N kxx lkxx0;
          lkxx2 = for_loop ns (\<lambda>i b. b[i * ns + i := b ! (i * ns + i) + 1 / 10 ^ 7]) lkxx1;
          N = c_int ns; LDA = c_int ns
      in case dpotrf_L N lkxx2 LDA of
           (lkxx3, INFO) \<Rightarrow>
             if INFO \<noteq> 0 then Inl (AssertFailed INFO)
             else
               (let y1 = fill_normal_rnd draw y ns seed
                in case dtrmv_LNN N lkxx3 LDA y1 of
                     Inl e \<Rightarrow> Inl e
                   | Inr y2 \<Rightarrow>
                       Inr (case mn of
                              None \<Rightarrow> y2
                            | Some m \<Rightarrow> for_loop ns (\<lambda>i b. b[i := b ! i + m ! i]) y2)))"

text \<open>
  The kernel evaluator \<^verbatim>\<open>get_krn_se_ard(krn, xa, xb, na, nb, dim, p, npar)\<close> and the
  optimizer \<^verbatim>\<open>get_hyper_param_ard(p, npar, x, y, ns, dim)\<close> are not among the sources:
  they are arguments of the model. The first maps the contents of its output buffer and
  its inputs to the final contents of the output buffer, the second returns the final
  contents of \<^verbatim>\<open>p\<close>.
\<close>

type_synonym kernel_eval = "buffer \<Rightarrow> buffer \<Rightarrow> buffer \<Rightarrow> nat \<Rightarrow> nat \<Rightarrow> nat \<Rightarrow> buffer \<Rightarrow> nat \<Rightarrow> buffer"

type_synonym hyper_opt = "buffer \<Rightarrow> nat \<Rightarrow> buffer \<Rightarrow> buffer \<Rightarrow> nat \<Rightarrow> nat \<Rightarrow> buffer"

text \<open>The blocks that \<^verbatim>\<open>gpr_interpolate_mean\<close> and its callee obtain from \<^verbatim>\<open>malloc\<close>.\<close>

record blocks =
  m_krxx :: buffer
  m_lkrxx :: buffer
  m_krpx :: buffer
  m_krpp :: buffer
  m_y_res :: buffer
  m_wt :: buffer
  m_V :: buffer

text \<open>
  \<^verbatim>\<open>gpr_interpolate_mean\<close>: \<open>var_yp\<close> is \<open>None\<close> for a null pointer. Returns the final
  contents of \<^verbatim>\<open>yp\<close>, \<^verbatim>\<open>var_yp\<close> and \<^verbatim>\<open>p\<close>.
\<close>

definition gpr_interpolate_mean :: "kernel_eval \<Rightarrow> hyper_opt \<Rightarrow> blocks \<Rightarrow> buffer \<Rightarrow> buffer \<Rightarrow> buffer \<Rightarrow> nat \<Rightarrow> buffer \<Rightarrow> buffer \<Rightarrow> buffer \<Rightarrow> nat \<Rightarrow> nat \<Rightarrow> buffer \<Rightarrow> nat \<Rightarrow> buffer option \<Rightarrow> int \<Rightarrow> error + buffer \<times> buffer option \<times> buffer" where
  "gpr_interpolate_mean get_krn_se_ard get_hyper_param_ard m xp yp yp_mn np x y y_mn ns dim' p npar
       var_yp is_opt =
     (let N = c_int ns; ALPHA = - 1;
          y_res1 = dcopy N y (m_y_res m);
          y_res = daxpy N ALPHA y_mn y_res1;
          p1 = (if is_opt \<noteq> 0 then get_hyper_param_ard p npar x y_res ns dim' else p);
          krxx = get_krn_se_ard (m_krxx m) x x ns ns dim' p1 npar
      in case get_gpr_weights (m_wt m) (m_lkrxx m) krxx ns dim' y_res of
           Inl e \<Rightarrow> Inl e
         | Inr (wt, lkrxx) \<Rightarrow>
             (let krpx = get_krn_se_ard (m_krpx m) xp x np ns dim' p1 npar
              in case gpr_predict yp wt krpx np ns of
                   Inl e \<Rightarrow> Inl e
                 | Inr yp1 \<Rightarrow>
                     (let N = c_int np;
                          yp2 = daxpy N ALPHA yp_mn yp1
                      in case var_yp of
                           None \<Rightarrow> Inr (yp2, None, p1)
                         | Some v \<Rightarrow>
                             (let krpp = get_krn_se_ard (m_krpp m) xp xp np np dim' p1 npar
                              in case get_var_mat_chd (m_V m) v krpp krpx lkrxx np ns of
                                   Inl e \<Rightarrow> Inl e
                                 | Inr v' \<Rightarrow> Inr (yp2, Some v', p1)))))"

section \<open>The words of the specification\<close>

text \<open>A matrix of order \<open>n\<close> is symmetric; it is positive definite.\<close>

definition symmetric :: "nat \<Rightarrow> (nat \<Rightarrow> nat \<Rightarrow> real) \<Rightarrow> bool" where
  "symmetric n A = (\<forall>i<n. \<forall>j<n. A i j = A j i)"

definition quad_form :: "nat \<Rightarrow> (nat \<Rightarrow> nat \<Rightarrow> real) \<Rightarrow> (nat \<Rightarrow> real) \<Rightarrow> real" where
  "quad_form n A x = (\<Sum>i<n. \<Sum>j<n. x i * A i j * x j)"

definition pos_def :: "nat \<Rightarrow> (nat \<Rightarrow> nat \<Rightarrow> real) \<Rightarrow> bool" where
  "pos_def n A = (\<forall>x. (\<exists>i<n. x i \<noteq> 0) \<longrightarrow> 0 < quad_form n A x)"

text \<open>
  \<open>L\<close> is a lower Cholesky factor of the matrix \<open>A\<close> of order \<open>n\<close>: its diagonal is
  positive and \<open>L L\<^sup>T = A\<close> on and below the diagonal, where only the entries of \<open>L\<close>
  on and below the diagonal count.
\<close>

definition cholesky_factor :: "nat \<Rightarrow> (nat \<Rightarrow> nat \<Rightarrow> real) \<Rightarrow> (nat \<Rightarrow> nat \<Rightarrow> real) \<Rightarrow> bool" where
  "cholesky_factor n L A =
     ((\<forall>j<n. 0 < L j j) \<and> (\<forall>r<n. \<forall>c<Suc r. (\<Sum>k<Suc c. L r k * L c k) = A r c))"

text \<open>
  \<open>X\<close> solves \<open>A X = B\<close>, for \<open>A\<close> of order \<open>n\<close> and \<open>m\<close> right-hand sides.
\<close>

definition solves :: "nat \<Rightarrow> nat \<Rightarrow> (nat \<Rightarrow> nat \<Rightarrow> real) \<Rightarrow> (nat \<Rightarrow> nat \<Rightarrow> real) \<Rightarrow> (nat \<Rightarrow> nat \<Rightarrow> real) \<Rightarrow> bool" where
  "solves n m A X B = (\<forall>r<n. \<forall>j<m. (\<Sum>c<n. A r c * X c j) = B r j)"

text \<open>A lower triangular matrix read as a full one: zero above the diagonal.\<close>

definition lower :: "(nat \<Rightarrow> nat \<Rightarrow> real) \<Rightarrow> nat \<Rightarrow> nat \<Rightarrow> real" where
  "lower L r k = (if k \<le> r then L r k else 0)"

text \<open>
  The log-determinant of the specification, from the diagonal of the factor of order
  \<open>ns\<close>: \<open>log_det(K) = 2 \<Sum> log(diag(factor))\<close>.
\<close>

definition log_det :: "nat \<Rightarrow> buffer \<Rightarrow> real" where
  "log_det ns krn_chd = 2 * (\<Sum>i<ns. ln (mat ns krn_chd i i))"

text \<open>The jittered matrix \<open>krn + \<epsilon> I\<close> of a buffer, with \<open>\<epsilon> = 1e-7\<close>.\<close>

definition jittered :: "nat \<Rightarrow> buffer \<Rightarrow> nat \<Rightarrow> nat \<Rightarrow> real" where
  "jittered n krn i j = mat n krn i j + (if i = j then 1 / 10 ^ 7 else 0)"

declare fsol.simps [simp del] bsol.simps [simp del] chol.simps [simp del]

section \<open>Loops over buffers\<close>

lemma c_int_id: "n < 2 ^ 31 \<Longrightarrow> c_int n = int n"
  by (simp add: c_int_def Let_def)

lemma idx_lt: "i < n \<Longrightarrow> j < m \<Longrightarrow> i + j * n < n * (m::nat)"
proof -
  assume a: "i < n" "j < m"
  have "i + j * n < n + j * n" using a by simp
  also have "\<dots> = n * Suc j" by simp
  also have "\<dots> \<le> n * m" using a by (intro mult_le_mono2) simp
  finally show ?thesis .
qed

lemma idx_inj: "i < n \<Longrightarrow> i' < n \<Longrightarrow> i + j * n = i' + j' * n \<longleftrightarrow> i = i' \<and> j = (j'::nat)"
proof
  assume a: "i < n" "i' < n" and e: "i + j * n = i' + j' * n"
  have "(i + j * n) mod n = i" "(i' + j' * n) mod n = i'" using a by simp_all
  hence i: "i = i'" using e by simp
  have "(i + j * n) div n = j" "(i' + j' * n) div n = j'" using a by simp_all
  hence "j = j'" using e by simp
  with i show "i = i' \<and> j = j'" by simp
qed simp

lemma for_loop_upd_length [simp]:
  "length (for_loop n (\<lambda>i b. b[idx i := h i b]) b0) = length b0"
  by (induction n) simp_all

lemma for_loop_upd_other:
  "(\<And>i. i < n \<Longrightarrow> idx i \<noteq> k) \<Longrightarrow> for_loop n (\<lambda>i b. b[idx i := h i b]) b0 ! k = b0 ! k"
  by (induction n) simp_all

lemma for_loop_upd_at:
  assumes "inj_on idx {..<n}" "i < n" "idx i < length b0"
    and "\<And>b. h i b = g (b ! idx i)"
  shows "for_loop n (\<lambda>i b. b[idx i := h i b]) b0 ! idx i = g (b0 ! idx i)"
  using assms(1,2)
proof (induction n)
  case 0 then show ?case by simp
next
  case (Suc n)
  have inj: "inj_on idx {..<n}" using Suc.prems(1) by (auto simp: inj_on_def)
  show ?case
  proof (cases "i = n")
    case True
    have "\<And>j. j < n \<Longrightarrow> idx j \<noteq> idx n"
      using Suc.prems(1) by (auto simp: inj_on_def)
    hence "for_loop n (\<lambda>i b. b[idx i := h i b]) b0 ! idx n = b0 ! idx n"
      by (rule for_loop_upd_other)
    thus ?thesis using True assms(3,4) by simp
  next
    case False
    hence lt: "i < n" using Suc.prems(2) by simp
    have "idx n \<noteq> idx i" using Suc.prems(1,2) False by (auto simp: inj_on_def)
    thus ?thesis using Suc.IH[OF inj lt] by simp
  qed
qed

lemma copy_loop_nth:
  "k < length dst \<Longrightarrow> for_loop n (\<lambda>i b. b[i := src ! i]) dst ! k = (if k < n then src ! k else dst ! k)"
  by (induction n) (auto simp: nth_list_update less_Suc_eq)

lemma copy_loop_all:
  "length dst = n \<Longrightarrow> length src = n \<Longrightarrow> for_loop n (\<lambda>i b. b[i := src ! i]) dst = src"
  by (rule nth_equalityI) (simp_all add: copy_loop_nth)

lemma jitter_loop_nth:
  assumes "length (b::real list) = n * n" "i < n" "j < n"
  shows "for_loop n (\<lambda>i b. b[i * n + i := b ! (i * n + i) + e]) b ! (i + j * n)
         = b ! (i + j * n) + (if i = j then e else 0)"
proof (cases "i = j")
  case True
  have inj: "inj_on (\<lambda>i. i * n + i) {..<n}"
    by (rule inj_onI) (metis add.commute idx_inj lessThan_iff)
  have "for_loop n (\<lambda>i b. b[i * n + i := b ! (i * n + i) + e]) b ! (i * n + i) = b ! (i * n + i) + e"
    by (rule for_loop_upd_at[OF inj]) (use assms idx_lt[of i n i n] in \<open>simp_all add: add.commute\<close>)
  thus ?thesis using True by (simp add: add.commute)
next
  case False
  have "for_loop n (\<lambda>i b. b[i * n + i := b ! (i * n + i) + e]) b ! (i + j * n) = b ! (i + j * n)"
  proof (rule for_loop_upd_other)
    fix k assume "k < n"
    show "k * n + k \<noteq> i + j * n"
      using idx_inj[of k n i k j] \<open>k < n\<close> assms False by (auto simp: add.commute)
  qed
  thus ?thesis using False by simp
qed


lemma for_loop_sum: "for_loop n (\<lambda>i s. s + f i) (0::real) = (\<Sum>i<n. f i)"
  by (induction n) simp_all

lemma overwrite_length [simp]: "length (overwrite ld P f b) = length b"
  by (simp add: overwrite_def)

lemma overwrite_nth:
  "k < length b \<Longrightarrow> overwrite ld P f b ! k =
     (if P (k mod ld) (k div ld) then f (k mod ld) (k div ld) else b ! k)"
  by (simp add: overwrite_def)

lemma overwrite_mat:
  "i < ld \<Longrightarrow> i + j * ld < length b \<Longrightarrow>
   mat ld (overwrite ld P f b) i j = (if P i j then f i j else mat ld b i j)"
  by (simp add: mat_def overwrite_nth)

lemma mirror_inner:
  assumes len: "length (s::real list) = np * np" and i: "i < np" and m: "i + 1 + m \<le> np"
    and a: "a < np" and b: "b < np"
  shows "for_loop m (\<lambda>d b. b[(i + 1 + d) * np + i := b ! (i * np + (i + 1 + d))]) s ! (b + a * np)
         = (if b = i \<and> i < a \<and> a < i + 1 + m then s ! (a + i * np) else s ! (b + a * np))"
  using m a b
proof (induction m arbitrary: a b)
  case 0 then show ?case by simp
next
  case (Suc m)
  let ?t = "for_loop m (\<lambda>d b. b[(i + 1 + d) * np + i := b ! (i * np + (i + 1 + d))]) s"
  have lt: "i + 1 + m < np" using Suc.prems by simp
  have IH: "?t ! (b + a * np) = (if b = i \<and> i < a \<and> a < i + 1 + m then s ! (a + i * np) else s ! (b + a * np))"
    using Suc.IH[of a b] Suc.prems by simp
  have "?t ! ((i + 1 + m) + i * np) = s ! ((i + 1 + m) + i * np)"
    using Suc.IH[of i "i + 1 + m"] lt i by simp
  hence rd: "?t ! (i * np + (i + 1 + m)) = s ! ((i + 1 + m) + i * np)"
    by (simp add: add.commute)
  have wr: "i + (i + 1 + m) * np < length ?t" using idx_lt[OF i lt] len by simp
  have eq: "(i + (i + 1 + m) * np = b + a * np) \<longleftrightarrow> (b = i \<and> a = i + 1 + m)"
    using idx_inj[OF i Suc.prems(3), of "i + 1 + m" a] by auto
  have "for_loop (Suc m) (\<lambda>d b. b[(i + 1 + d) * np + i := b ! (i * np + (i + 1 + d))]) s
        = ?t[i + (i + 1 + m) * np := s ! ((i + 1 + m) + i * np)]"
    using rd by (simp add: add.commute)
  hence "for_loop (Suc m) (\<lambda>d b. b[(i + 1 + d) * np + i := b ! (i * np + (i + 1 + d))]) s ! (b + a * np)
        = (if b = i \<and> a = i + 1 + m then s ! ((i + 1 + m) + i * np) else ?t ! (b + a * np))"
    using wr eq by (simp add: nth_list_update del: for_loop.simps)
  thus ?case using IH by (auto simp del: for_loop.simps)
qed

lemma mirror_inner_length [simp]:
  "length (for_range lo hi (\<lambda>j b. b[f j := g j b]) s) = length s"
  by (simp add: for_range_def)

lemma mirror_outer:
  assumes len: "length (v::real list) = np * np" and m: "m \<le> np" and a: "a < np" and b: "b < np"
  shows "for_loop m (\<lambda>i. for_range (i + 1) np (\<lambda>j b. b[j * np + i := b ! (i * np + j)])) v ! (b + a * np)
         = (if b < a \<and> b < m then v ! (a + b * np) else v ! (b + a * np))"
  using m a b
proof (induction m arbitrary: a b)
  case 0 then show ?case by simp
next
  case (Suc m)
  let ?t = "for_loop m (\<lambda>i. for_range (i + 1) np (\<lambda>j b. b[j * np + i := b ! (i * np + j)])) v"
  have lt: "m < np" using Suc.prems by simp
  have tl: "length ?t = np * np" using len by (induction m) simp_all
  have "for_loop (Suc m) (\<lambda>i. for_range (i + 1) np (\<lambda>j b. b[j * np + i := b ! (i * np + j)])) v ! (b + a * np)
      = for_loop (np - (m + 1)) (\<lambda>d b. b[(m + 1 + d) * np + m := b ! (m * np + (m + 1 + d))]) ?t ! (b + a * np)"
    by (simp add: for_range_def)
  also have "\<dots> = (if b = m \<and> m < a \<and> a < m + 1 + (np - (m + 1)) then ?t ! (a + m * np) else ?t ! (b + a * np))"
    by (rule mirror_inner[OF tl lt _ Suc.prems(2,3)]) (use lt in simp)
  also have "\<dots> = (if b < a \<and> b < Suc m then v ! (a + b * np) else v ! (b + a * np))"
    using Suc.IH[of a b] Suc.IH[of m a] Suc.prems lt by auto
  finally show ?case .
qed

lemma mirror_symmetric:
  assumes "length (v::real list) = np * np" "i < np" "j < np"
  shows "mirror np v ! (i * np + j) = mirror np v ! (j * np + i)"
  using mirror_outer[OF assms(1) le_refl assms(2,3)] mirror_outer[OF assms(1) le_refl assms(3,2)] assms(2,3)
  unfolding mirror_def by (cases i j rule: linorder_cases) (simp_all add: add.commute)

section \<open>Triangular solves and the Cholesky factor\<close>

lemma fsol_solves: "L i i \<noteq> 0 \<Longrightarrow> (\<Sum>k<Suc i. L i k * fsol L b k) = b i"
proof -
  assume nz: "L i i \<noteq> 0"
  have "fsol L b i = (b i - (\<Sum>k<i. L i k * fsol L b k)) / L i i" by (rule fsol.simps)
  thus ?thesis using nz by simp
qed

lemma bsol_solves:
  assumes "i < n" "L i i \<noteq> 0"
  shows "(\<Sum>k\<in>{i..<n}. L k i * bsol n L y k) = y i"
proof -
  have "bsol n L y i = (y i - (\<Sum>k\<in>{Suc i..<n}. L k i * bsol n L y k)) / L i i"
    by (rule bsol.simps)
  thus ?thesis using assms by (simp add: sum.atLeast_Suc_lessThan)
qed

lemma chol_diag: "chol A j j = sqrt (pivot A j)"
  by (subst chol.simps) (simp add: pivot_def)

lemma chol_LLT:
  assumes "0 < pivot A j"
  shows "(\<Sum>k<Suc j. chol A i k * chol A j k) = A i j"
proof (cases "i = j")
  case True
  have "chol A j j * chol A j j = pivot A j"
    using assms by (simp add: chol_diag)
  thus ?thesis using True by (simp add: pivot_def)
next
  case False
  have nz: "chol A j j \<noteq> 0" using assms by (simp add: chol_diag)
  have "chol A i j = (A i j - (\<Sum>k<j. chol A i k * chol A j k)) / chol A j j"
    using False by (subst chol.simps) simp
  thus ?thesis using nz by simp
qed

lemma fsol_cong:
  assumes "\<And>r c. c \<le> r \<Longrightarrow> r < n \<Longrightarrow> L r c = L' r c" "\<And>r. r < n \<Longrightarrow> b r = b' r" "i < n"
  shows "fsol L b i = fsol L' b' i"
  using assms(3)
proof (induction i rule: less_induct)
  case (less i)
  have "(\<Sum>k<i. L i k * fsol L b k) = (\<Sum>k<i. L' i k * fsol L' b' k)"
    by (rule sum.cong) (use less assms(1)[of _ i] in auto)
  thus ?case
    using assms(1)[of i i] assms(2)[of i] less.prems
    by (simp add: fsol.simps[of L b i] fsol.simps[of L' b' i])
qed

lemma bsol_cong:
  assumes "\<And>r c. c \<le> r \<Longrightarrow> r < n \<Longrightarrow> L r c = L' r c" "\<And>r. r < n \<Longrightarrow> y r = y' r" "i < n"
  shows "bsol n L y i = bsol n L' y' i"
  using assms(3)
proof (induction "n - i" arbitrary: i rule: less_induct)
  case less
  have "(\<Sum>k\<in>{Suc i..<n}. L k i * bsol n L y k) = (\<Sum>k\<in>{Suc i..<n}. L' k i * bsol n L' y' k)"
    by (rule sum.cong) (use less assms(1)[of i] in auto)
  thus ?case
    using assms(1)[of i i] assms(2)[of i] less.prems
    by (simp add: bsol.simps[of n L y i] bsol.simps[of n L' y' i])
qed

lemma chol_cong:
  assumes "\<And>r c. r < n \<Longrightarrow> c < n \<Longrightarrow> A r c = B r c" "i < n" "j < n"
  shows "chol A i j = chol B i j"
  using assms(2,3)
proof (induction j arbitrary: i rule: less_induct)
  case (less j)
  have d: "chol A j j = chol B j j"
  proof -
    have "(\<Sum>k<j. chol A j k * chol A j k) = (\<Sum>k<j. chol B j k * chol B j k)"
      by (rule sum.cong) (use less in auto)
    thus ?thesis using assms(1)[of j j] less.prems
      by (simp add: chol.simps[of A j j] chol.simps[of B j j])
  qed
  show ?case
  proof (cases "i = j")
    case True thus ?thesis using d by simp
  next
    case False
    have "(\<Sum>k<j. chol A i k * chol A j k) = (\<Sum>k<j. chol B i k * chol B j k)"
      by (rule sum.cong) (use less in auto)
    thus ?thesis using assms(1)[of i j] less.prems d False
      by (simp add: chol.simps[of A i j] chol.simps[of B i j])
  qed
qed

lemma pivot_cong:
  assumes "\<And>r c. r < n \<Longrightarrow> c < n \<Longrightarrow> A r c = B r c" "j < n"
  shows "pivot A j = pivot B j"
proof -
  have "\<And>k. k < j \<Longrightarrow> chol A j k = chol B j k"
    by (rule chol_cong[where n = n]) (use assms in auto)
  hence "(\<Sum>k<j. chol A j k * chol A j k) = (\<Sum>k<j. chol B j k * chol B j k)"
    by simp
  thus ?thesis using assms(1)[of j j] assms(2) by (simp add: pivot_def)
qed


lemma sum_lower_row:
  assumes "r < n"
  shows "(\<Sum>k<n. lower L r k * f k) = (\<Sum>k<Suc r. L r k * f k)"
  by (rule sum.mono_neutral_cong_right) (use assms in \<open>auto simp: lower_def\<close>)

lemma sum_lower_col:
  assumes "k < n"
  shows "(\<Sum>r<n. lower L r k * f r) = (\<Sum>r\<in>{k..<n}. L r k * f r)"
  by (rule sum.mono_neutral_cong_right) (use assms in \<open>auto simp: lower_def\<close>)

lemma sum_lower_both:
  assumes "c \<le> r"
  shows "(\<Sum>k<n. lower L r k * lower L c k) = (\<Sum>k<min n (Suc c). L r k * L c k)"
  by (rule sum.mono_neutral_cong_right) (use assms in \<open>auto simp: lower_def\<close>)

lemma chol_full:
  assumes sym: "symmetric n A" and piv: "\<And>j. j < n \<Longrightarrow> 0 < pivot A j" and r: "r < n" and c: "c < n"
  shows "(\<Sum>k<n. lower (chol A) r k * lower (chol A) c k) = A r c"
proof (cases "c \<le> r")
  case True
  have "(\<Sum>k<n. lower (chol A) r k * lower (chol A) c k) = (\<Sum>k<min n (Suc c). chol A r k * chol A c k)"
    using True by (rule sum_lower_both)
  also have "min n (Suc c) = Suc c" using c by simp
  finally show ?thesis using chol_LLT[OF piv[OF c], of r] by simp
next
  case False
  hence le: "r \<le> c" by simp
  have "(\<Sum>k<n. lower (chol A) r k * lower (chol A) c k) = (\<Sum>k<n. lower (chol A) c k * lower (chol A) r k)"
    by (simp add: mult.commute)
  also have "\<dots> = (\<Sum>k<min n (Suc r). chol A c k * chol A r k)"
    using le by (rule sum_lower_both)
  also have "min n (Suc r) = Suc r" using r by simp
  finally show ?thesis using chol_LLT[OF piv[OF r], of c] sym r c by (simp add: symmetric_def)
qed

lemma factor_solve:
  assumes AL: "\<And>r c. r < n \<Longrightarrow> c < n \<Longrightarrow> (\<Sum>k<n. lower L r k * lower L c k) = A r c"
    and nz: "\<And>j. j < n \<Longrightarrow> L j j \<noteq> 0" and r: "r < n"
  shows "(\<Sum>c<n. A r c * bsol n L (fsol L b) c) = b r"
proof -
  let ?z = "fsol L b" let ?w = "bsol n L ?z"
  have "(\<Sum>c<n. A r c * ?w c) = (\<Sum>c<n. (\<Sum>k<n. lower L r k * lower L c k) * ?w c)"
    by (rule sum.cong) (use AL r in auto)
  also have "\<dots> = (\<Sum>c<n. \<Sum>k<n. lower L r k * (lower L c k * ?w c))"
    by (simp add: sum_distrib_right mult.assoc)
  also have "\<dots> = (\<Sum>k<n. \<Sum>c<n. lower L r k * (lower L c k * ?w c))"
    by (rule sum.swap)
  also have "\<dots> = (\<Sum>k<n. lower L r k * (\<Sum>c<n. lower L c k * ?w c))"
    by (simp add: sum_distrib_left)
  also have "\<dots> = (\<Sum>k<n. lower L r k * ?z k)"
    by (rule sum.cong) (use nz in \<open>auto simp: sum_lower_col bsol_solves\<close>)
  also have "\<dots> = (\<Sum>k<Suc r. L r k * ?z k)" using r by (rule sum_lower_row)
  also have "\<dots> = b r" using nz[OF r] by (rule fsol_solves)
  finally show ?thesis .
qed


lemma gram_quad:
  fixes a :: "nat \<Rightarrow> nat \<Rightarrow> real"
  shows "(\<Sum>r\<in>R. \<Sum>c\<in>R. x r * (\<Sum>k\<in>K. a r k * a c k) * x c)
         = (\<Sum>k\<in>K. (\<Sum>r\<in>R. a r k * x r) * (\<Sum>c\<in>R. a c k * x c))"
proof -
  have "(\<Sum>r\<in>R. \<Sum>c\<in>R. x r * (\<Sum>k\<in>K. a r k * a c k) * x c)
        = (\<Sum>r\<in>R. \<Sum>c\<in>R. \<Sum>k\<in>K. (a r k * x r) * (a c k * x c))"
    by (simp add: sum_distrib_left sum_distrib_right mult_ac)
  also have "\<dots> = (\<Sum>r\<in>R. \<Sum>k\<in>K. \<Sum>c\<in>R. (a r k * x r) * (a c k * x c))"
    by (rule sum.cong[OF refl]) (rule sum.swap)
  also have "\<dots> = (\<Sum>k\<in>K. \<Sum>r\<in>R. \<Sum>c\<in>R. (a r k * x r) * (a c k * x c))"
    by (rule sum.swap)
  also have "\<dots> = (\<Sum>k\<in>K. (\<Sum>r\<in>R. a r k * x r) * (\<Sum>c\<in>R. a c k * x c))"
    by (simp add: sum_product)
  finally show ?thesis .
qed

lemma quad_form_support:
  assumes "m \<le> n" "\<And>k. m \<le> k \<Longrightarrow> x k = 0"
  shows "quad_form n A x = quad_form m A x"
proof -
  have "quad_form n A x = (\<Sum>i<m. \<Sum>j<n. x i * A i j * x j)"
    unfolding quad_form_def
    by (rule sum.mono_neutral_right) (use assms in auto)
  also have "\<dots> = (\<Sum>i<m. \<Sum>j<m. x i * A i j * x j)"
    by (rule sum.cong[OF refl], rule sum.mono_neutral_right) (use assms in auto)
  finally show ?thesis by (simp add: quad_form_def)
qed

lemma pos_def_pivot:
  assumes sym: "symmetric n A" and pd: "pos_def n A" and j: "j < n"
  shows "0 < pivot A j"
  using j
proof (induction j rule: less_induct)
  case (less j)
  define L where "L = chol A"
  define x where "x k = (if k < j then bsol j L (\<lambda>c. - L j c) k else if k = j then 1 else 0)" for k
  define G where "G r c = (\<Sum>k<j. lower L r k * lower L c k)" for r c
  define D where "D r c = (if r = j \<and> c = j then pivot A j else 0)" for r c
  have piv: "\<And>k. k < j \<Longrightarrow> 0 < pivot A k" using less by simp
  have nz: "L k k \<noteq> 0" if "k < j" for k
    using piv[OF that] by (simp add: L_def chol_diag)
  have A_eq: "A r c = G r c + D r c" if r: "r < Suc j" and c: "c < Suc j" for r c
  proof -
    consider "c < j" "c \<le> r" | "r < j" "r < c" | "r = j" "c = j" using r c by linarith
    then show ?thesis
    proof cases
      case 1
      have "G r c = (\<Sum>k<min j (Suc c). L r k * L c k)"
        unfolding G_def using 1(2) by (rule sum_lower_both)
      also have "min j (Suc c) = Suc c" using 1 by simp
      finally show ?thesis using chol_LLT[OF piv[OF 1(1)], of r] 1 by (simp add: L_def D_def)
    next
      case 2
      have "G r c = (\<Sum>k<j. lower L c k * lower L r k)"
        unfolding G_def by (simp add: mult.commute)
      also have "\<dots> = (\<Sum>k<min j (Suc r). L c k * L r k)"
        using 2(2) by (intro sum_lower_both) simp
      also have "min j (Suc r) = Suc r" using 2 by simp
      finally have "G r c = A c r" using chol_LLT[OF piv[OF 2(1)], of c] by (simp add: L_def)
      moreover have "A c r = A r c" using sym r c less.prems by (simp add: symmetric_def)
      ultimately show ?thesis using 2 by (simp add: D_def)
    next
      case 3
      have "G j j = (\<Sum>k<j. L j k * L j k)"
        unfolding G_def by (rule sum.cong) (auto simp: lower_def)
      thus ?thesis using 3 by (simp add: D_def pivot_def L_def)
    qed
  qed
  have col: "(\<Sum>r<Suc j. lower L r k * x r) = 0" if k: "k < j" for k
  proof -
    have "(\<Sum>r<Suc j. lower L r k * x r) = (\<Sum>r\<in>{k..<Suc j}. L r k * x r)"
      using k by (intro sum_lower_col) simp
    also have "\<dots> = (\<Sum>r\<in>{k..<j}. L r k * x r) + L j k * x j"
      using k by simp
    also have "(\<Sum>r\<in>{k..<j}. L r k * x r) = (\<Sum>r\<in>{k..<j}. L r k * bsol j L (\<lambda>c. - L j c) r)"
      by (rule sum.cong) (auto simp: x_def)
    also have "\<dots> = - L j k" using k nz[OF k] by (rule bsol_solves)
    finally show ?thesis by (simp add: x_def)
  qed
  have "quad_form n A x = quad_form (Suc j) A x"
    by (rule quad_form_support) (use less.prems in \<open>auto simp: x_def\<close>)
  also have "\<dots> = (\<Sum>r<Suc j. \<Sum>c<Suc j. x r * (G r c + D r c) * x c)"
    unfolding quad_form_def by (intro sum.cong refl) (simp add: A_eq)
  also have "\<dots> = (\<Sum>r<Suc j. \<Sum>c<Suc j. x r * G r c * x c) + (\<Sum>r<Suc j. \<Sum>c<Suc j. x r * D r c * x c)"
    by (simp add: algebra_simps sum.distrib)
  also have "(\<Sum>r<Suc j. \<Sum>c<Suc j. x r * G r c * x c)
             = (\<Sum>k<j. (\<Sum>r<Suc j. lower L r k * x r) * (\<Sum>c<Suc j. lower L c k * x c))"
    unfolding G_def by (rule gram_quad)
  also have "\<dots> = 0" using col by simp
  also have "(\<Sum>r<Suc j. \<Sum>c<Suc j. x r * D r c * x c) = pivot A j"
    by (simp add: D_def x_def)
  finally have "quad_form n A x = pivot A j" by simp
  moreover have "0 < quad_form n A x"
  proof -
    have "\<exists>i<n. x i \<noteq> 0" using less.prems by (intro exI[of _ j]) (simp add: x_def)
    thus ?thesis using pd unfolding pos_def_def by blast
  qed
  ultimately show ?case by simp
qed


lemma cholesky_factor_unique:
  assumes cf: "cholesky_factor n L A" and j: "j < n"
  shows "0 < pivot A j \<and> (\<forall>i. j \<le> i \<and> i < n \<longrightarrow> L i j = chol A i j)"
  using j
proof (induction j rule: less_induct)
  case (less j)
  have IH: "L i k = chol A i k" if "k < j" "k \<le> i" "i < n" for i k
    using less.IH[of k] that less.prems by simp
  have pos: "0 < L j j" using cf less.prems by (simp add: cholesky_factor_def)
  have eq: "(\<Sum>k<Suc c. L r k * L c k) = A r c" if "r < n" "c \<le> r" for r c
    using cf that by (simp add: cholesky_factor_def)
  have "(\<Sum>k<j. L j k * L j k) = (\<Sum>k<j. chol A j k * chol A j k)"
    by (rule sum.cong) (use IH less.prems in auto)
  hence sq: "L j j * L j j = pivot A j"
    using eq[of j j] less.prems by (simp add: pivot_def)
  hence piv: "0 < pivot A j" using pos by (metis mult_pos_pos)
  have "sqrt (pivot A j) = L j j"
    using sq pos by (metis less_eq_real_def real_sqrt_abs2 abs_of_nonneg)
  hence d: "chol A j j = L j j" by (simp add: chol_diag)
  have "L i j = chol A i j" if i: "j \<le> i" "i < n" for i
  proof (cases "i = j")
    case True thus ?thesis using d by simp
  next
    case False
    have "(\<Sum>k<j. L i k * L j k) = (\<Sum>k<j. chol A i k * chol A j k)"
      by (rule sum.cong) (use IH i less.prems in auto)
    hence "L i j * L j j = A i j - (\<Sum>k<j. chol A i k * chol A j k)"
      using eq[of i j] i by simp
    hence "L i j = (A i j - (\<Sum>k<j. chol A i k * chol A j k)) / L j j"
      using pos by (simp add: nonzero_eq_divide_eq)
    moreover have "chol A i j = (A i j - (\<Sum>k<j. chol A i k * chol A j k)) / chol A j j"
      using False by (subst chol.simps) simp
    ultimately show ?thesis using d by simp
  qed
  with piv show ?case by simp
qed

lemma chol_is_factor:
  assumes "\<And>j. j < n \<Longrightarrow> 0 < pivot A j"
  shows "cholesky_factor n (chol A) A"
  unfolding cholesky_factor_def
proof (intro conjI allI impI)
  fix j assume "j < n" thus "0 < chol A j j" using assms by (simp add: chol_diag)
next
  fix r c assume "r < n" "c < Suc r"
  hence "c < n" by simp
  thus "(\<Sum>k<Suc c. chol A r k * chol A c k) = A r c" using assms by (intro chol_LLT) simp
qed

lemma cholesky_factor_cong:
  assumes "cholesky_factor n L A" "\<And>r c. c \<le> r \<Longrightarrow> r < n \<Longrightarrow> L' r c = L r c"
    "\<And>r c. c \<le> r \<Longrightarrow> r < n \<Longrightarrow> A' r c = A r c"
  shows "cholesky_factor n L' A'"
proof -
  have "(\<Sum>k<Suc c. L' r k * L' c k) = (\<Sum>k<Suc c. L r k * L c k)" if "r < n" "c < Suc r" for r c
    by (rule sum.cong) (use that assms(2) in auto)
  thus ?thesis using assms unfolding cholesky_factor_def by auto
qed

lemma quad_form_jitter:
  "quad_form n (\<lambda>i j. A i j + (if i = j then e else 0)) x = quad_form n A x + e * (\<Sum>i<n. x i * x i)"
proof -
  have "quad_form n (\<lambda>i j. A i j + (if i = j then e else 0)) x
        = (\<Sum>i<n. (\<Sum>j<n. x i * A i j * x j) + (\<Sum>j<n. if i = j then e * (x i * x i) else 0))"
  proof -
    have "x i * (A i j + (if i = j then e else 0)) * x j
          = x i * A i j * x j + (if i = j then e * (x i * x i) else 0)" for i j
      by (auto simp: algebra_simps)
    thus ?thesis unfolding quad_form_def by (simp add: sum.distrib)
  qed
  also have "\<dots> = (\<Sum>i<n. (\<Sum>j<n. x i * A i j * x j) + e * (x i * x i))"
    by (intro sum.cong refl) simp
  finally show ?thesis by (simp add: quad_form_def sum.distrib sum_distrib_left)
qed

lemma pos_def_jittered:
  assumes "pos_def n (mat n krn)"
  shows "pos_def n (jittered n krn)"
  unfolding pos_def_def
proof (intro allI impI)
  fix x :: "nat \<Rightarrow> real" assume "\<exists>i<n. x i \<noteq> 0"
  hence "0 < quad_form n (mat n krn) x" using assms by (simp add: pos_def_def)
  moreover have "0 \<le> (\<Sum>i<n. x i * x i)" by (intro sum_nonneg) simp
  moreover have "jittered n krn = (\<lambda>i j. mat n krn i j + (if i = j then 1 / 10 ^ 7 else 0))"
    by (intro ext) (simp add: jittered_def)
  ultimately show "0 < quad_form n (jittered n krn) x"
    by (simp add: quad_form_jitter add_pos_nonneg)
qed

lemma symmetric_jittered:
  "symmetric n (mat n krn) \<Longrightarrow> symmetric n (jittered n krn)"
  by (simp add: symmetric_def jittered_def)


lemma pivots_pos_def:
  assumes sym: "symmetric n A" and piv: "\<And>j. j < n \<Longrightarrow> 0 < pivot A j"
  shows "pos_def n A"
  unfolding pos_def_def
proof (intro allI impI)
  fix x :: "nat \<Rightarrow> real" assume ex: "\<exists>i<n. x i \<noteq> 0"
  define L where "L = chol A"
  define t where "t k = (\<Sum>r<n. lower L r k * x r)" for k
  have pos: "0 < L j j" if "j < n" for j using piv[OF that] by (simp add: L_def chol_diag)
  have "quad_form n A x = (\<Sum>r<n. \<Sum>c<n. x r * (\<Sum>k<n. lower L r k * lower L c k) * x c)"
    unfolding quad_form_def L_def
    by (intro sum.cong refl) (simp add: chol_full[OF sym piv])
  also have "\<dots> = (\<Sum>k<n. t k * t k)" unfolding t_def by (rule gram_quad)
  finally have q: "quad_form n A x = (\<Sum>k<n. t k * t k)" .
  have nonneg: "0 \<le> (\<Sum>k<n. t k * t k)" by (intro sum_nonneg) simp
  have "(\<Sum>k<n. t k * t k) \<noteq> 0"
  proof
    assume "(\<Sum>k<n. t k * t k) = 0"
    hence "\<forall>k\<in>{..<n}. t k * t k = 0"
      by (subst (asm) sum_nonneg_eq_0_iff) simp_all
    hence t0: "t k = 0" if "k < n" for k using that by simp
    have "x k = 0" if "k < n" for k
      using that
    proof (induction "n - k" arbitrary: k rule: less_induct)
      case less
      have "t k = (\<Sum>r\<in>{k..<n}. L r k * x r)"
        unfolding t_def using less.prems by (rule sum_lower_col)
      also have "\<dots> = L k k * x k + (\<Sum>r\<in>{Suc k..<n}. L r k * x r)"
        using less.prems by (simp add: sum.atLeast_Suc_lessThan)
      also have "(\<Sum>r\<in>{Suc k..<n}. L r k * x r) = 0"
        by (rule sum.neutral) (use less in auto)
      finally show ?case using t0[OF less.prems] pos[OF less.prems] by simp
    qed
    with ex show False by blast
  qed
  with nonneg q show "0 < quad_form n A x" by simp
qed


lemma tri_gram:
  assumes nz: "\<And>j. j < n \<Longrightarrow> L j j \<noteq> 0"
  shows "(\<Sum>l<n. fsol L b l * fsol L b' l) = (\<Sum>l<n. b l * bsol n L (fsol L b') l)"
proof -
  let ?z = "fsol L b" let ?z' = "fsol L b'" let ?w = "bsol n L ?z'"
  have "b l = (\<Sum>k<n. lower L l k * ?z k)" if "l < n" for l
    using that nz by (simp add: sum_lower_row fsol_solves del: sum.lessThan_Suc)
  hence "(\<Sum>l<n. b l * ?w l) = (\<Sum>l<n. (\<Sum>k<n. lower L l k * ?z k) * ?w l)"
    by simp
  also have "\<dots> = (\<Sum>l<n. \<Sum>k<n. (lower L l k * ?z k) * ?w l)"
    by (simp add: sum_distrib_right)
  also have "\<dots> = (\<Sum>l<n. \<Sum>k<n. ?z k * (lower L l k * ?w l))"
    by (simp add: mult_ac)
  also have "\<dots> = (\<Sum>k<n. \<Sum>l<n. ?z k * (lower L l k * ?w l))"
    by (rule sum.swap)
  also have "\<dots> = (\<Sum>k<n. ?z k * (\<Sum>l<n. lower L l k * ?w l))"
    by (simp add: sum_distrib_left)
  also have "\<dots> = (\<Sum>k<n. ?z k * ?z' k)"
    by (rule sum.cong) (use nz in \<open>auto simp: sum_lower_col bsol_solves\<close>)
  finally show ?thesis by simp
qed

lemma solve_sym:
  assumes sym: "symmetric n A"
    and u: "\<And>r. r < n \<Longrightarrow> (\<Sum>c<n. A r c * u c) = b r"
    and v: "\<And>r. r < n \<Longrightarrow> (\<Sum>c<n. A r c * v c) = b' r"
  shows "(\<Sum>l<n. b l * v l) = (\<Sum>c<n. u c * b' c)"
proof -
  have "(\<Sum>l<n. b l * v l) = (\<Sum>l<n. (\<Sum>c<n. A l c * u c) * v l)"
    by (rule sum.cong) (use u in auto)
  also have "\<dots> = (\<Sum>l<n. \<Sum>c<n. (A l c * u c) * v l)"
    by (simp add: sum_distrib_right)
  also have "\<dots> = (\<Sum>l<n. \<Sum>c<n. u c * (A l c * v l))"
    by (simp add: mult_ac)
  also have "\<dots> = (\<Sum>c<n. \<Sum>l<n. u c * (A l c * v l))"
    by (rule sum.swap)
  also have "\<dots> = (\<Sum>c<n. \<Sum>l<n. u c * (A c l * v l))"
    by (intro sum.cong refl) (use sym in \<open>simp add: symmetric_def\<close>)
  also have "\<dots> = (\<Sum>c<n. u c * (\<Sum>l<n. A c l * v l))"
    by (simp add: sum_distrib_left)
  also have "\<dots> = (\<Sum>c<n. u c * b' c)"
    by (rule sum.cong) (use v in auto)
  finally show ?thesis .
qed

section \<open>What the routines leave of the buffer lengths\<close>

lemma dgemv_T_length: "dgemv_T m n al a lda x be y = Inr y' \<Longrightarrow> length y' = length y"
  by (auto simp: dgemv_T_def split: if_splits)

lemma dsyrk_LT_length: "dsyrk_LT n k al a lda be c ldc = Inr c' \<Longrightarrow> length c' = length c"
  by (auto simp: dsyrk_LT_def split: if_splits)

lemma dgemm_TN_length: "dgemm_TN m n k al a lda b ldb be c ldc = Inr c' \<Longrightarrow> length c' = length c"
  by (auto simp: dgemm_TN_def split: if_splits)

lemma dtrsm_LLNN_length: "dtrsm_LLNN m n al a lda b ldb = Inr b' \<Longrightarrow> length b' = length b"
  by (auto simp: dtrsm_LLNN_def split: if_splits)

lemma dtrmv_LNN_length: "dtrmv_LNN n a lda x = Inr x' \<Longrightarrow> length x' = length x"
  by (auto simp: dtrmv_LNN_def split: if_splits)

lemma dpotrf_L_length: "dpotrf_L n a lda = (a', info) \<Longrightarrow> length a' = length a"
  by (auto simp: dpotrf_L_def split: if_splits option.splits)

lemma dposv_L_length:
  "dposv_L n nrhs a lda b ldb = (a', b', info) \<Longrightarrow> length a' = length a \<and> length b' = length b"
  by (auto simp: dposv_L_def dpotrs_L_def split: if_splits prod.splits dest: dpotrf_L_length)

lemma get_gpr_weights_fresh:
  assumes "length wt = ns" "length krn_chd = ns * ns" "length krn = ns * ns" "length y = ns"
  shows "get_gpr_weights wt krn_chd krn ns d y = get_gpr_weights y krn krn ns d y"
  using assms by (simp add: get_gpr_weights_def copy_loop_all)

lemma get_gpr_weights_length:
  assumes "get_gpr_weights wt krn_chd krn ns d y = Inr (wt', krn_chd')"
  shows "length wt' = length wt \<and> length krn_chd' = length krn_chd"
  using assms
  by (auto simp: get_gpr_weights_def Let_def split: prod.splits if_splits dest!: dposv_L_length)

section \<open>The factorization and the solve on buffers\<close>

lemma dpotrf_L_ok:
  assumes "0 < n" and "\<And>j. j < n \<Longrightarrow> 0 < pivot (mat n a) j"
  shows "dpotrf_L (int n) a (int n) = (overwrite n (\<lambda>i j. j \<le> i \<and> i < n) (chol (mat n a)) a, 0)"
proof -
  have "find (\<lambda>j. pivot (mat n a) j \<le> 0) [0..<n] = None"
    using assms(2) by (auto simp: find_None_iff not_le)
  thus ?thesis using assms(1) by (simp add: dpotrf_L_def)
qed

lemma dpotrf_L_fails:
  assumes "0 < n" and "j < n" and "pivot (mat n a) j \<le> 0"
  shows "\<exists>a' info. dpotrf_L (int n) a (int n) = (a', info) \<and> 0 < info"
proof -
  have "find (\<lambda>j. pivot (mat n a) j \<le> 0) [0..<n] \<noteq> None"
    using assms(2,3) by (auto simp: find_None_iff)
  then obtain j0 where "find (\<lambda>j. pivot (mat n a) j \<le> 0) [0..<n] = Some j0" by auto
  thus ?thesis using assms(1) by (simp add: dpotrf_L_def)
qed

lemma factor_entries:
  assumes "length a = n * n" "i < n" "j < n"
  shows "mat n (overwrite n (\<lambda>i j. j \<le> i \<and> i < n) (chol A) a) i j
         = (if j \<le> i then chol A i j else mat n a i j)"
  using assms idx_lt[of i n j n] by (simp add: overwrite_mat)

lemma dposv_L_ok:
  assumes n: "0 < n" and la: "length a = n * n" and lb: "length b = n * m"
    and piv: "\<And>j. j < n \<Longrightarrow> 0 < pivot (mat n a) j"
  shows "\<exists>a' b'. dposv_L (int n) (int m) a (int n) b (int n) = (a', b', 0)
           \<and> length a' = n * n \<and> length b' = n * m
           \<and> (\<forall>i<n. \<forall>j<n. mat n a' i j = (if j \<le> i then chol (mat n a) i j else mat n a i j))
           \<and> (\<forall>i<n. \<forall>j<m. mat n b' i j
                = bsol n (chol (mat n a)) (fsol (chol (mat n a)) (\<lambda>r. mat n b r j)) i)"
proof -
  let ?a' = "overwrite n (\<lambda>i j. j \<le> i \<and> i < n) (chol (mat n a)) a"
  let ?b' = "dpotrs_L n m ?a' n b n"
  have run: "dposv_L (int n) (int m) a (int n) b (int n) = (?a', ?b', 0)"
    using n dpotrf_L_ok[OF n piv] by (simp add: dposv_L_def)
  have ent: "\<forall>i<n. \<forall>j<n. mat n ?a' i j = (if j \<le> i then chol (mat n a) i j else mat n a i j)"
    using la by (simp add: factor_entries)
  have sol: "mat n ?b' i j = bsol n (chol (mat n a)) (fsol (chol (mat n a)) (\<lambda>r. mat n b r j)) i"
    if i: "i < n" and j: "j < m" for i j
  proof -
    have "mat n ?b' i j = bsol n (mat n ?a') (fsol (mat n ?a') (\<lambda>r. mat n b r j)) i"
      unfolding dpotrs_L_def using i j lb idx_lt[OF i j] by (simp add: overwrite_mat)
    also have "\<dots> = bsol n (chol (mat n a)) (fsol (chol (mat n a)) (\<lambda>r. mat n b r j)) i"
    proof (rule bsol_cong[where n = n])
      show "mat n ?a' r c = chol (mat n a) r c" if "c \<le> r" "r < n" for r c
        using that ent by simp
      show "fsol (mat n ?a') (\<lambda>r. mat n b r j) r = fsol (chol (mat n a)) (\<lambda>r. mat n b r j) r"
        if "r < n" for r
        by (rule fsol_cong[where n = n]) (use that ent in auto)
      show "i < n" by fact
    qed
    finally show ?thesis .
  qed
  show ?thesis
    using run ent sol la lb by (intro exI[of _ ?a'] exI[of _ ?b']) (simp add: dpotrs_L_def)
qed


lemma dposv_L_matrix:
  assumes n: "0 < n" and la: "length a = n * n" and lb: "length b = n * m"
    and agree: "\<And>i j. i < n \<Longrightarrow> j < n \<Longrightarrow> mat n a i j = A i j"
    and piv: "\<And>j. j < n \<Longrightarrow> 0 < pivot A j"
  shows "\<exists>a' b'. dposv_L (int n) (int m) a (int n) b (int n) = (a', b', 0)
           \<and> length a' = n * n \<and> length b' = n * m
           \<and> (\<forall>i<n. \<forall>j<n. mat n a' i j = (if j \<le> i then chol A i j else A i j))
           \<and> (\<forall>i<n. \<forall>j<m. mat n b' i j = bsol n (chol A) (fsol (chol A) (\<lambda>r. mat n b r j)) i)"
proof -
  have ch: "chol (mat n a) i j = chol A i j" if "i < n" "j < n" for i j
    by (rule chol_cong[where n = n]) (use that agree in auto)
  have piv': "0 < pivot (mat n a) j" if "j < n" for j
    using pivot_cong[of n "mat n a" A j] agree piv that by simp
  from dposv_L_ok[OF n la lb piv'] obtain a' b' where
    run: "dposv_L (int n) (int m) a (int n) b (int n) = (a', b', 0)"
    and len: "length a' = n * n" "length b' = n * m"
    and ent: "\<forall>i<n. \<forall>j<n. mat n a' i j = (if j \<le> i then chol (mat n a) i j else mat n a i j)"
    and sol: "\<forall>i<n. \<forall>j<m. mat n b' i j
                = bsol n (chol (mat n a)) (fsol (chol (mat n a)) (\<lambda>r. mat n b r j)) i"
    by blast
  have "bsol n (chol (mat n a)) (fsol (chol (mat n a)) (\<lambda>r. mat n b r j)) i
        = bsol n (chol A) (fsol (chol A) (\<lambda>r. mat n b r j)) i" if i: "i < n" for i j
  proof (rule bsol_cong[where n = n])
    show "chol (mat n a) r c = chol A r c" if "c \<le> r" "r < n" for r c
      using that ch by simp
    show "fsol (chol (mat n a)) (\<lambda>r. mat n b r j) r = fsol (chol A) (\<lambda>r. mat n b r j) r"
      if "r < n" for r
      by (rule fsol_cong[where n = n]) (use that ch in auto)
    show "i < n" by fact
  qed
  with run len ent sol ch agree show ?thesis by auto
qed

lemma jitter_buffer:
  assumes "length krn = n * n" "i < n" "j < n"
  shows "mat n (for_loop n (\<lambda>i b. b[i * n + i := b ! (i * n + i) + 1 / 10 ^ 7]) krn) i j
         = jittered n krn i j"
  using jitter_loop_nth[OF assms] by (simp add: mat_def jittered_def)

lemma get_gpr_weights_run:
  assumes ns: "0 < ns" "ns < 2 ^ 31"
    and len: "length wt = ns" "length krn_chd = ns * ns" "length krn = ns * ns" "length y = ns"
    and piv: "\<And>j. j < ns \<Longrightarrow> 0 < pivot (jittered ns krn) j"
  shows "\<exists>wt' krn_chd'. get_gpr_weights wt krn_chd krn ns d y = Inr (wt', krn_chd')
           \<and> length wt' = ns \<and> length krn_chd' = ns * ns
           \<and> (\<forall>i<ns. \<forall>j<ns. mat ns krn_chd' i j
                 = (if j \<le> i then chol (jittered ns krn) i j else mat ns krn i j))
           \<and> (\<forall>i<ns. wt' ! i
                 = bsol ns (chol (jittered ns krn)) (fsol (chol (jittered ns krn)) (\<lambda>r. y ! r)) i)"
proof -
  let ?a = "for_loop ns (\<lambda>i b. b[i * ns + i := b ! (i * ns + i) + 1 / 10 ^ 7]) krn"
  have la: "length ?a = ns * ns" using len by simp
  have lb: "length y = ns * 1" using len by simp
  from dposv_L_matrix[OF ns(1) la lb jitter_buffer[OF len(3)] piv] obtain a' b' where
    run: "dposv_L (int ns) (int 1) ?a (int ns) y (int ns) = (a', b', 0)"
    and l: "length a' = ns * ns" "length b' = ns * 1"
    and ent: "\<forall>i<ns. \<forall>j<ns. mat ns a' i j
                = (if j \<le> i then chol (jittered ns krn) i j else jittered ns krn i j)"
    and sol: "\<forall>i<ns. \<forall>j<1. mat ns b' i j
                = bsol ns (chol (jittered ns krn)) (fsol (chol (jittered ns krn)) (\<lambda>r. mat ns y r j)) i"
    by blast
  have "get_gpr_weights wt krn_chd krn ns d y = Inr (b', a')"
    using run len ns by (simp add: get_gpr_weights_def copy_loop_all c_int_id)
  moreover have "\<forall>i<ns. \<forall>j<ns. mat ns a' i j
                 = (if j \<le> i then chol (jittered ns krn) i j else mat ns krn i j)"
    using ent by (auto simp: jittered_def)
  moreover have "\<forall>i<ns. b' ! i
                 = bsol ns (chol (jittered ns krn)) (fsol (chol (jittered ns krn)) (\<lambda>r. y ! r)) i"
    using sol by (simp add: mat_def)
  ultimately show ?thesis using l by simp
qed


lemma mirror_length [simp]: "length (mirror np v) = length v"
proof -
  have "length (for_loop m (\<lambda>i. for_range (i + 1) np (\<lambda>j b. b[j * np + i := b ! (i * np + j)])) v)
        = length v" for m
    by (induction m) simp_all
  thus ?thesis by (simp add: mirror_def)
qed

lemma mirror_mat:
  assumes "length v = np * np" "i < np" "j < np"
  shows "mat np (mirror np v) i j = (if i < j then mat np v j i else mat np v i j)"
  using mirror_outer[OF assms(1) le_refl assms(3,2)] assms
  by (simp add: mirror_def mat_def)

lemma buffer_eqI:
  assumes "length v = np * np" "length w = np * np"
    and "\<And>i j. i < np \<Longrightarrow> j < np \<Longrightarrow> mat np v i j = mat np w i j"
  shows "v = w"
proof (rule nth_equalityI)
  show "length v = length w" using assms by simp
  fix k assume "k < length v"
  hence k: "k < np * np" using assms by simp
  hence pos: "0 < np" by (cases np) simp_all
  have "k div np < np" using k by (simp add: less_mult_imp_div_less)
  moreover have "k mod np < np" using pos by simp
  ultimately have "mat np v (k mod np) (k div np) = mat np w (k mod np) (k div np)"
    by (intro assms(3))
  thus "v ! k = w ! k" by (simp add: mat_def)
qed

lemma add_loop_nth:
  assumes "length (b::real list) = n" "i < n"
  shows "for_loop n (\<lambda>i b. b[i := b ! i + m ! i]) b ! i = b ! i + m ! i"
  using for_loop_upd_at[of "\<lambda>i. i" n i b "\<lambda>i b. b ! i + m ! i" "\<lambda>v. v + m ! i"] assms
  by simp

lemma get_var_mat_run:
  assumes ns: "0 < ns" "ns < 2 ^ 31" and np: "0 < np" "np < 2 ^ 31"
    and len: "length V = ns * np" "length var = np * np" "length krnpp = np * np"
      "length krnp = ns * np" "length krn = ns * ns"
    and piv: "\<And>j. j < ns \<Longrightarrow> 0 < pivot (jittered ns krn) j"
  shows "\<exists>v krn'. get_var_mat V var krnpp krnp krn np ns = Inr (v, krn') \<and> length v = np * np
           \<and> (\<forall>i<np. \<forall>j<np. mat np v i j = mat np krnpp i j
                 - (\<Sum>l<ns. mat ns krnp l i
                      * bsol ns (chol (jittered ns krn))
                          (fsol (chol (jittered ns krn)) (\<lambda>r. mat ns krnp r j)) l))"
proof -
  let ?A = "jittered ns krn"
  let ?a = "for_loop ns (\<lambda>i b. b[i * ns + i := b ! (i * ns + i) + 1 / 10 ^ 7]) krn"
  have la: "length ?a = ns * ns" using len by simp
  from dposv_L_matrix[OF ns(1) la len(4) jitter_buffer[OF len(5)] piv] obtain a' b' where
    run: "dposv_L (int ns) (int np) ?a (int ns) krnp (int ns) = (a', b', 0)"
    and sol: "\<forall>i<ns. \<forall>j<np. mat ns b' i j = bsol ns (chol ?A) (fsol (chol ?A) (\<lambda>r. mat ns krnp r j)) i"
    by blast
  let ?v = "overwrite np (\<lambda>i j. i < np \<and> j < np)
              (\<lambda>i j. - 1 * (\<Sum>l<ns. mat ns krnp l i * mat ns b' l j) + 1 * mat np krnpp i j) krnpp"
  have "dgemm_TN (int np) (int np) (int ns) (- 1) krnp (int ns) b' (int ns) 1 krnpp (int np) = Inr ?v"
    using ns np by (simp add: dgemm_TN_def)
  hence r: "get_var_mat V var krnpp krnp krn np ns = Inr (?v, a')"
    using run len ns np by (simp add: get_var_mat_def copy_loop_all c_int_id mult.commute)
  have "mat np ?v i j = mat np krnpp i j
          - (\<Sum>l<ns. mat ns krnp l i * bsol ns (chol ?A) (fsol (chol ?A) (\<lambda>r. mat ns krnp r j)) l)"
    if i: "i < np" and j: "j < np" for i j
  proof -
    have "(\<Sum>l<ns. mat ns krnp l i * mat ns b' l j)
          = (\<Sum>l<ns. mat ns krnp l i * bsol ns (chol ?A) (fsol (chol ?A) (\<lambda>r. mat ns krnp r j)) l)"
      by (rule sum.cong) (use sol j in auto)
    thus ?thesis using i j len idx_lt[OF i j] by (simp add: overwrite_mat)
  qed
  thus ?thesis using r len by auto
qed

lemma get_var_mat_chd_run:
  assumes ns: "0 < ns" "ns < 2 ^ 31" and np: "0 < np" "np < 2 ^ 31"
    and len: "length V = ns * np" "length var = np * np" "length krnpp = np * np"
      "length krnp = ns * np"
    and low: "\<And>r c. c \<le> r \<Longrightarrow> r < ns \<Longrightarrow> mat ns krn_chd r c = L r c"
  shows "\<exists>v. get_var_mat_chd V var krnpp krnp krn_chd np ns = Inr v \<and> length v = np * np
           \<and> (\<forall>i<np. \<forall>j<np. mat np v i j =
                 (if i < j
                  then mat np krnpp j i
                    - (\<Sum>l<ns. fsol L (\<lambda>r. mat ns krnp r j) l * fsol L (\<lambda>r. mat ns krnp r i) l)
                  else mat np krnpp i j
                    - (\<Sum>l<ns. fsol L (\<lambda>r. mat ns krnp r i) l * fsol L (\<lambda>r. mat ns krnp r j) l)))"
proof -
  let ?Z = "overwrite ns (\<lambda>i j. i < ns \<and> j < np)
              (\<lambda>i j. fsol (mat ns krn_chd) (\<lambda>r. 1 * mat ns krnp r j) i) krnp"
  let ?v = "overwrite np (\<lambda>i j. j \<le> i \<and> i < np)
              (\<lambda>i j. - 1 * (\<Sum>l<ns. mat ns ?Z l i * mat ns ?Z l j) + 1 * mat np krnpp i j) krnpp"
  have t: "dtrsm_LLNN (int ns) (int np) 1 krn_chd (int ns) krnp (int ns) = Inr ?Z"
    using ns by (simp add: dtrsm_LLNN_def)
  have s: "dsyrk_LT (int np) (int ns) (- 1) ?Z (int ns) 1 krnpp (int np) = Inr ?v"
    using ns np by (simp add: dsyrk_LT_def)
  have r: "get_var_mat_chd V var krnpp krnp krn_chd np ns = Inr (mirror np ?v)"
    using t s len ns np by (simp add: get_var_mat_chd_def copy_loop_all c_int_id mult.commute)
  have Z: "mat ns ?Z l j = fsol L (\<lambda>r. mat ns krnp r j) l" if l: "l < ns" and j: "j < np" for l j
  proof -
    have "mat ns ?Z l j = fsol (mat ns krn_chd) (\<lambda>r. mat ns krnp r j) l"
      using l j len idx_lt[OF l j] by (simp add: overwrite_mat)
    also have "\<dots> = fsol L (\<lambda>r. mat ns krnp r j) l"
      by (rule fsol_cong[where n = ns]) (use low l in auto)
    finally show ?thesis .
  qed
  have lv: "length ?v = np * np" using len by simp
  have low_v: "mat np ?v i j = mat np krnpp i j
      - (\<Sum>l<ns. fsol L (\<lambda>r. mat ns krnp r i) l * fsol L (\<lambda>r. mat ns krnp r j) l)"
    if i: "i < np" and j: "j \<le> i" for i j
  proof -
    have jn: "j < np" using i j by simp
    have "(\<Sum>l<ns. mat ns ?Z l i * mat ns ?Z l j)
          = (\<Sum>l<ns. fsol L (\<lambda>r. mat ns krnp r i) l * fsol L (\<lambda>r. mat ns krnp r j) l)"
      by (rule sum.cong) (use Z i jn in auto)
    thus ?thesis using i j jn len idx_lt[OF i jn] by (simp add: overwrite_mat)
  qed
  have "mat np (mirror np ?v) i j =
                 (if i < j
                  then mat np krnpp j i
                    - (\<Sum>l<ns. fsol L (\<lambda>r. mat ns krnp r j) l * fsol L (\<lambda>r. mat ns krnp r i) l)
                  else mat np krnpp i j
                    - (\<Sum>l<ns. fsol L (\<lambda>r. mat ns krnp r i) l * fsol L (\<lambda>r. mat ns krnp r j) l))"
    if i: "i < np" and j: "j < np" for i j
    using mirror_mat[OF lv i j] low_v[of i j] low_v[of j i] i j by auto
  thus ?thesis using r lv by (intro exI[of _ "mirror np ?v"]) simp
qed

lemma sample_gp_run:
  assumes ns: "0 < ns" "ns * ns < 2 ^ 31"
    and len: "length lkxx0 = ns * ns" "length kxx = ns * ns" "length y = ns"
      "length (draw ns seed) = ns"
    and piv: "\<And>j. j < ns \<Longrightarrow> 0 < pivot (jittered ns kxx) j"
  shows "\<exists>y'. sample_gp draw lkxx0 y mn kxx ns seed = Inr y' \<and> length y' = ns
           \<and> (\<forall>i<ns. y' ! i = (\<Sum>k<Suc i. chol (jittered ns kxx) i k * draw ns seed ! k)
                 + (case mn of None \<Rightarrow> 0 | Some m \<Rightarrow> m ! i))
           \<and> (\<forall>lkxx0' y0. length lkxx0' = ns * ns \<and> length y0 = ns \<longrightarrow>
                 sample_gp draw lkxx0' y0 mn kxx ns seed = Inr y')"
proof -
  let ?A = "jittered ns kxx"
  let ?a = "for_loop ns (\<lambda>i b. b[i * ns + i := b ! (i * ns + i) + 1 / 10 ^ 7]) kxx"
  let ?a' = "overwrite ns (\<lambda>i j. j \<le> i \<and> i < ns) (chol (mat ns ?a)) ?a"
  let ?z = "draw ns seed"
  let ?y2 = "overwrite 1 (\<lambda>i j. j < ns) (\<lambda>i j. \<Sum>k<Suc j. mat ns ?a' j k * ?z ! k) ?z"
  let ?y' = "case mn of None \<Rightarrow> ?y2 | Some m \<Rightarrow> for_loop ns (\<lambda>i b. b[i := b ! i + m ! i]) ?y2"
  have n31: "ns < 2 ^ 31"
  proof -
    have "ns * 1 \<le> ns * ns" using ns(1) by (intro mult_le_mono2) simp
    thus ?thesis using ns(2) by linarith
  qed
  have piv': "0 < pivot (mat ns ?a) j" if "j < ns" for j
    using pivot_cong[of ns "mat ns ?a" ?A j] jitter_buffer[OF len(2)] piv that by simp
  have f: "dpotrf_L (int ns) ?a (int ns) = (?a', 0)"
    using ns(1) piv' by (rule dpotrf_L_ok)
  have run: "sample_gp draw l0 y0 mn kxx ns seed = Inr ?y'"
    if "length l0 = ns * ns" "length y0 = ns" for l0 y0
  proof -
    have "c_int (ns * ns) = int (ns * ns)" using ns(2) by (rule c_int_id)
    moreover have "0 < int (ns * ns)" using ns(1) by simp
    ultimately have c: "dcopy (c_int (ns * ns)) kxx l0 = kxx"
      using that len by (simp add: dcopy_def copy_loop_all del: of_nat_mult)
    have z: "fill_normal_rnd draw y0 ns seed = ?z"
      using that len by (simp add: fill_normal_rnd_def copy_loop_all)
    have t: "dtrmv_LNN (int ns) ?a' (int ns) ?z = Inr ?y2"
      using ns by (simp add: dtrmv_LNN_def)
    show ?thesis
      using c z t f n31 by (simp add: sample_gp_def c_int_id split: option.splits)
  qed
  have ly2: "length ?y2 = ns" using len by simp
  have y2: "?y2 ! i = (\<Sum>k<Suc i. chol ?A i k * ?z ! k)" if i: "i < ns" for i
  proof -
    have "?y2 ! i = (\<Sum>k<Suc i. mat ns ?a' i k * ?z ! k)"
      using i len by (simp add: overwrite_nth)
    also have "\<dots> = (\<Sum>k<Suc i. chol ?A i k * ?z ! k)"
    proof (rule sum.cong[OF refl])
      fix k assume "k \<in> {..<Suc i}"
      hence k: "k \<le> i" "k < ns" using i by auto
      have "mat ns ?a' i k = chol (mat ns ?a) i k"
        using factor_entries[of ?a ns i k] len i k by simp
      also have "\<dots> = chol ?A i k"
        by (rule chol_cong[where n = ns]) (use jitter_buffer[OF len(2)] i k in auto)
      finally show "mat ns ?a' i k * ?z ! k = chol ?A i k * ?z ! k" by simp
    qed
    finally show ?thesis .
  qed
  have "length ?y' = ns" using ly2 by (cases mn) simp_all
  moreover have "\<forall>i<ns. ?y' ! i = (\<Sum>k<Suc i. chol ?A i k * ?z ! k)
                 + (case mn of None \<Rightarrow> 0 | Some m \<Rightarrow> m ! i)"
    using y2 add_loop_nth[OF ly2] by (cases mn) simp_all
  ultimately show ?thesis using run[OF len(1,3)] run by (intro exI[of _ ?y']) simp
qed

lemma daxpy_nth:
  assumes "n < 2 ^ 31" "length y = n" "i < n"
  shows "daxpy (c_int n) alpha x y ! i = y ! i + alpha * x ! i"
proof -
  have "for_loop n (\<lambda>i b. b[i := b ! i + alpha * x ! i]) y ! i = y ! i + alpha * x ! i"
    using for_loop_upd_at[of "\<lambda>i. i" n i y "\<lambda>i b. b ! i + alpha * x ! i" "\<lambda>v. v + alpha * x ! i"] assms
    by simp
  thus ?thesis using assms by (simp add: daxpy_def c_int_id)
qed

lemma dcopy_all:
  assumes "n < 2 ^ 31" "length x = n" "length y = n"
  shows "dcopy (c_int n) x y = x"
  using assms by (cases "n = 0") (simp_all add: dcopy_def c_int_id copy_loop_all)

lemma gpr_predict_nth:
  assumes "gpr_predict yp wt krnp np ns = Inr yp'" "ns < 2 ^ 31" "np < 2 ^ 31" "length yp = np" "i < np"
  shows "yp' ! i = (\<Sum>l<ns. mat ns krnp l i * wt ! l)" and "length yp' = np"
  using assms
  by (auto simp: gpr_predict_def dgemv_T_def c_int_id overwrite_nth Let_def split: if_splits)

section \<open>Evaluation at numerals\<close>

lemma for_loop_numeral:
  "for_loop (numeral k) body s = body (pred_numeral k) (for_loop (pred_numeral k) body s)"
  by (simp add: numeral_eq_Suc)

lemma sum_lessThan_numeral:
  "(\<Sum>i<numeral k. f i) = (\<Sum>i<pred_numeral k. f i) + (f (pred_numeral k) :: real)"
  by (simp add: numeral_eq_Suc)

lemmas blas_eval = dposv_L_def dpotrf_L_def dpotrs_L_def overwrite_def pivot_def mat_def c_int_id
  for_loop_numeral sum_lessThan_numeral
  dgemv_T_def dgemm_TN_def dsyrk_LT_def dtrsm_LLNN_def dtrmv_LNN_def dcopy_def daxpy_def ddot_def
  for_range_def mirror_def Let_def

lemma upt_0_numeral: "[0..<numeral k] = [0..<pred_numeral k] @ [pred_numeral k]"
  by (simp add: numeral_eq_Suc)

lemma list_update_numeral:
  "(x # xs)[numeral k := v] = x # xs[pred_numeral k := v]"
  by (simp add: numeral_eq_Suc)

lemma sum_atLeastLessThan_numeral:
  "sum f {m..<numeral k}
   = (if m \<le> pred_numeral k then sum f {m..<pred_numeral k} + (f (pred_numeral k) :: real) else 0)"
  by (simp add: numeral_eq_Suc)

lemmas num_eval = upt_0_numeral list_update_numeral sum_atLeastLessThan_numeral

lemmas solve_eval = chol.simps[of _ 0 0] chol.simps[of _ "Suc 0" 0] chol.simps[of _ "Suc 0" "Suc 0"]
  fsol.simps[of _ _ 0] fsol.simps[of _ _ "Suc 0"] bsol.simps[of _ _ _ 0] bsol.simps[of _ _ _ "Suc 0"]

lemma pos_def_example: "pos_def 2 (mat 2 [4, 2, 2, 2])"
proof (rule pivots_pos_def)
  show "symmetric 2 (mat 2 [4, 2, 2, 2])"
    by (simp add: symmetric_def mat_def less_Suc_eq numeral_2_eq_2)
  fix j :: nat assume "j < 2"
  hence "j = 0 \<or> j = 1" by auto
  thus "0 < pivot (mat 2 [4, 2, 2, 2]) j"
    by (auto simp: pivot_def mat_def chol.simps[of _ 0 0] chol.simps[of _ "Suc 0" 0])
qed

section \<open>The unused parameter of the linear solve\<close>

text \<open>
  Claim C10. The weights and the factor that \<^verbatim>\<open>get_gpr_weights\<close> returns do not depend
  on its argument \<^verbatim>\<open>dim\<close>: two calls that differ only there give the same result.
\<close>

theorem get_gpr_weights_dim_independent:
  "get_gpr_weights wt krn_chd krn ns dim1 y = get_gpr_weights wt krn_chd krn ns dim2 y"
  by (simp add: get_gpr_weights_def)

section \<open>The log-likelihood and its three terms\<close>

text \<open>
  Claim C5. For a sample count \<open>ns\<close> that fits \<^verbatim>\<open>int\<close> and a factor with positive
  diagonal, \<^verbatim>\<open>get_log_likelihood\<close> returns
  \<open>- 1/2 (y\<^sup>T wt) - 1/2 log_det(K) - 1/2 ns log(2 PI)\<close>, where \<open>log_det(K)\<close> is twice the
  sum of the logarithms of the diagonal of the factor and \<open>PI\<close> is the macro of the
  source. With a null \<^verbatim>\<open>ret\<close> nothing else is returned; with a \<^verbatim>\<open>ret\<close> of at least
  three entries the entries \<open>0\<close>, \<open>1\<close>, \<open>2\<close> become \<open>- 1/2 y\<^sup>T wt\<close>, \<open>- log_det(K)\<close> (not
  halved) and \<open>- 1/2 ns log(2 PI)\<close>, and the first plus half the second plus the third
  is the returned score.
\<close>

theorem get_log_likelihood_score:
  assumes "ns < 2 ^ 31" and "\<forall>i<ns. 0 < mat ns krn_chd i i"
  shows "fst (get_log_likelihood wt y ns krn_chd ret)
           = - (1 / 2) * (\<Sum>i<ns. y ! i * wt ! i) - (1 / 2) * log_det ns krn_chd
             - (1 / 2) * real ns * ln (2 * PI)
       \<and> (case ret of
            None \<Rightarrow> snd (get_log_likelihood wt y ns krn_chd ret) = None
          | Some r \<Rightarrow>
              (\<exists>r'. snd (get_log_likelihood wt y ns krn_chd ret) = Some r' \<and>
                 (3 \<le> length r \<longrightarrow>
                    r' ! 0 = - (1 / 2) * (\<Sum>i<ns. y ! i * wt ! i)
                  \<and> r' ! 1 = - log_det ns krn_chd
                  \<and> r' ! 2 = - (1 / 2) * real ns * ln (2 * PI)
                  \<and> r' ! 0 + (1 / 2) * r' ! 1 + r' ! 2
                      = fst (get_log_likelihood wt y ns krn_chd ret))))"
proof -
  have ld: "for_loop ns (\<lambda>i s. s + 2 * ln (krn_chd ! (i * ns + i))) 0 = log_det ns krn_chd"
    unfolding log_det_def for_loop_sum by (simp add: mat_def add.commute sum_distrib_left)
  have dd: "ddot (c_int ns) y wt = (\<Sum>i<ns. y ! i * wt ! i)"
    using assms(1) by (cases "ns = 0") (simp_all add: ddot_def c_int_id)
  show ?thesis
  proof (cases ret)
    case None
    then show ?thesis by (simp add: get_log_likelihood_def Let_def ld dd)
  next
    case (Some r)
    have "3 \<le> length r \<Longrightarrow> r \<noteq> []" by auto
    with Some show ?thesis by (auto simp add: get_log_likelihood_def Let_def ld dd)
  qed
qed

theorem get_log_likelihood_score_witness:
  "fst (get_log_likelihood [3] [2] 1 [exp 1] (Some [0, 0, 0])) = - 4 - (1 / 2) * ln (2 * PI)
   \<and> snd (get_log_likelihood [3] [2] 1 [exp 1] (Some [0, 0, 0]))
       = Some [- 3, - 2, - (1 / 2) * ln (2 * PI)]"
  using get_log_likelihood_score[of 1 "[exp 1]" "[3]" "[2]" "Some [0, 0, 0]"]
  by (simp add: mat_def log_det_def get_log_likelihood_def ddot_def c_int_def)

section \<open>The mirrored triangle of the Cholesky-factor variant\<close>

text \<open>
  Claim C6. Whenever \<^verbatim>\<open>get_var_mat_chd\<close> returns, on a buffer \<^verbatim>\<open>var\<close> of \<open>np * np\<close>
  entries, its output is exactly symmetric: the entries at \<open>i * np + j\<close> and at
  \<open>j * np + i\<close> are equal for all \<open>i, j < np\<close>, whatever the rank-k update left in the
  triangle it does not write.
\<close>

theorem get_var_mat_chd_symmetric:
  assumes "get_var_mat_chd V0 var krnpp krnp krn_chd np ns = Inr var'"
    and "length var = np * np" and "i < np" and "j < np"
  shows "var' ! (i * np + j) = var' ! (j * np + i)"
proof -
  from assms(1) obtain var2 where v2: "var' = mirror np var2"
    and "dsyrk_LT (c_int np) (c_int ns) (- 1)
           (projr (dtrsm_LLNN (c_int ns) (c_int np) 1 krn_chd (c_int ns)
              (for_loop (ns * np) (\<lambda>i b. b[i := krnp ! i]) V0) (c_int ns)))
           (c_int ns) 1 (for_loop (np * np) (\<lambda>i b. b[i := krnpp ! i]) var) (c_int np) = Inr var2"
    by (auto simp: get_var_mat_chd_def Let_def split: sum.splits)
  hence "length var2 = np * np"
    using assms(2) by (auto dest: dsyrk_LT_length)
  thus ?thesis unfolding v2 using assms(3,4) by (rule mirror_symmetric)
qed

theorem get_var_mat_chd_symmetric_witness:
  "get_var_mat_chd [0, 0] [0, 0, 0, 0] [5, 1, 7, 5] [1, 2] [1] 2 1 = Inr [4, - 1, - 1, 1]
   \<and> [4, - 1, - 1, 1 :: real] ! (0 * 2 + 1) = [4, - 1, - 1, 1] ! (1 * 2 + 0)"
proof -
  have run: "get_var_mat_chd [0, 0] [0, 0, 0, 0] [5, 1, 7, 5] [1, 2] [1] 2 1 = Inr [4, - 1, - 1, 1]"
    by (simp add: get_var_mat_chd_def blas_eval fsol.simps[of _ _ 0])
  show ?thesis
    using run get_var_mat_chd_symmetric[OF run, of 0 1] by simp
qed

section \<open>Calling the linear solve twice\<close>

text \<open>
  Claim C9. A second call of \<^verbatim>\<open>get_gpr_weights\<close> with the same \<^verbatim>\<open>krn\<close> and \<^verbatim>\<open>y\<close>, on
  the output buffers as the first call left them, returns the same weights and the same
  factor as the first call: the jitter of the first call is not in \<^verbatim>\<open>krn\<close>, and what
  the first call left in \<^verbatim>\<open>wt\<close> and \<^verbatim>\<open>krn_chd\<close> is overwritten by the copies.
\<close>

theorem get_gpr_weights_twice:
  assumes "length wt = ns" "length krn_chd = ns * ns" "length krn = ns * ns" "length y = ns"
    and "get_gpr_weights wt krn_chd krn ns d y = Inr (wt', krn_chd')"
  shows "get_gpr_weights wt' krn_chd' krn ns d y = Inr (wt', krn_chd')"
proof -
  have l: "length wt' = ns" "length krn_chd' = ns * ns"
    using get_gpr_weights_length[OF assms(5)] assms(1,2) by simp_all
  have "get_gpr_weights wt' krn_chd' krn ns d y = get_gpr_weights y krn krn ns d y"
    using l assms(3,4) by (rule get_gpr_weights_fresh)
  also have "\<dots> = get_gpr_weights wt krn_chd krn ns d y"
    using assms(1-4) by (rule get_gpr_weights_fresh[symmetric])
  finally show ?thesis using assms(5) by simp
qed

theorem get_gpr_weights_twice_witness:
  "get_gpr_weights [0] [0] [1 - 1 / 10 ^ 7] 1 3 [2] = Inr ([2], [1])
   \<and> get_gpr_weights [2] [1] [1 - 1 / 10 ^ 7] 1 3 [2] = Inr ([2], [1])"
proof -
  have first: "get_gpr_weights [0] [0] [1 - 1 / 10 ^ 7] 1 3 [2] = Inr ([2], [1])"
    by (simp add: get_gpr_weights_def blas_eval chol.simps[of _ 0 0] fsol.simps[of _ _ 0]
        bsol.simps[of _ _ _ 0])
  show ?thesis
    using first get_gpr_weights_twice[of "[0]" 1 "[0]" "[1 - 1 / 10 ^ 7]" "[2]" 3 "[2]" "[1]"]
    by simp
qed

section \<open>The training kernel after the full-solve variant\<close>

text \<open>
  Claim C2, at a kernel of order two with one query point. \<^verbatim>\<open>get_var_mat\<close> adds the
  jitter to its argument \<^verbatim>\<open>krn\<close> itself and hands that buffer to \<^verbatim>\<open>dposv\<close>, which leaves
  the Cholesky factor in it. Called with \<open>krn + \<epsilon> I = [[1, 3], [3, 10]]\<close>, it returns
  \<open>var = [3]\<close> and leaves \<open>[1, 3, 3, 1]\<close> in \<^verbatim>\<open>krn\<close>: the factor \<open>[[1, 0], [3, 1]]\<close> on and
  below the diagonal. A second call on the buffer as the first one left it adds the
  jitter to the factor, finds the second pivot \<open>1 + \<epsilon> - 9 / (1 + \<epsilon>)\<close> negative and ends
  at the failed assertion with status two.
\<close>

theorem get_var_mat_overwrites_krn:
  "get_var_mat [0, 0] [0] [5] [1, 4] [1 - 1 / 10 ^ 7, 3, 3, 10 - 1 / 10 ^ 7] 1 2
     = Inr ([3], [1, 3, 3, 1])
   \<and> get_var_mat [0, 0] [3] [5] [1, 4] [1, 3, 3, 1] 1 2 = Inl (AssertFailed 2)"
  by (simp add: get_var_mat_def blas_eval solve_eval num_eval)

section \<open>The query-side mean of the mean-offset orchestrator\<close>

text \<open>
  Whenever \<^verbatim>\<open>gpr_interpolate_mean\<close> returns, with dimensions that fit \<^verbatim>\<open>int\<close>: the
  weights are those that \<^verbatim>\<open>get_gpr_weights\<close> computes from \<open>y - y_mn\<close>, and the returned
  prediction is \<open>krpx\<^sup>T wt - yp_mn\<close>.
\<close>

lemma gpr_interpolate_mean_returns:
  assumes run: "gpr_interpolate_mean K H m xp yp yp_mn np x y y_mn ns d p npar var_yp is_opt
                  = Inr (yp', var', p')"
    and ns: "ns < 2 ^ 31" and np: "np < 2 ^ 31"
    and len: "length yp = np" "length y = ns" "length (m_y_res m) = ns"
  shows "\<exists>wt lkrxx y_res.
           (\<forall>i<ns. y_res ! i = y ! i - y_mn ! i)
         \<and> get_gpr_weights (m_wt m) (m_lkrxx m) (K (m_krxx m) x x ns ns d p' npar) ns d y_res
             = Inr (wt, lkrxx)
         \<and> (\<forall>i<np. yp' ! i
               = (\<Sum>l<ns. mat ns (K (m_krpx m) xp x np ns d p' npar) l i * wt ! l) - yp_mn ! i)"
proof -
  define y_res where "y_res = daxpy (c_int ns) (- 1) y_mn (dcopy (c_int ns) y (m_y_res m))"
  define p1 where "p1 = (if is_opt \<noteq> 0 then H p npar x y_res ns d else p)"
  define krxx where "krxx = K (m_krxx m) x x ns ns d p1 npar"
  define krpx where "krpx = K (m_krpx m) xp x np ns d p1 npar"
  define krpp where "krpp = K (m_krpp m) xp xp np np d p1 npar"
  have yr: "y_res ! i = y ! i - y_mn ! i" if "i < ns" for i
    unfolding y_res_def using that ns len by (simp add: dcopy_all daxpy_nth)
  have unf: "gpr_interpolate_mean K H m xp yp yp_mn np x y y_mn ns d p npar var_yp is_opt =
     (case get_gpr_weights (m_wt m) (m_lkrxx m) krxx ns d y_res of
           Inl e \<Rightarrow> Inl e
         | Inr (wt, lkrxx) \<Rightarrow>
             (case gpr_predict yp wt krpx np ns of
                   Inl e \<Rightarrow> Inl e
                 | Inr yp1 \<Rightarrow>
                     (case var_yp of
                           None \<Rightarrow> Inr (daxpy (c_int np) (- 1) yp_mn yp1, None, p1)
                         | Some v \<Rightarrow>
                             (case get_var_mat_chd (m_V m) v krpp krpx lkrxx np ns of
                                   Inl e \<Rightarrow> Inl e
                                 | Inr v' \<Rightarrow> Inr (daxpy (c_int np) (- 1) yp_mn yp1, Some v', p1)))))"
    unfolding gpr_interpolate_mean_def y_res_def p1_def krxx_def krpx_def krpp_def Let_def ..
  from run obtain wt lkrxx where
    w: "get_gpr_weights (m_wt m) (m_lkrxx m) krxx ns d y_res = Inr (wt, lkrxx)"
    unfolding unf by (cases "get_gpr_weights (m_wt m) (m_lkrxx m) krxx ns d y_res") auto
  from run obtain yp1 where pr: "gpr_predict yp wt krpx np ns = Inr yp1"
    by (cases "gpr_predict yp wt krpx np ns") (auto simp: unf w)
  have r2: "(case var_yp of
                None \<Rightarrow> Inr (daxpy (c_int np) (- 1) yp_mn yp1, None, p1)
              | Some v \<Rightarrow>
                  (case get_var_mat_chd (m_V m) v krpp krpx lkrxx np ns of
                     Inl e \<Rightarrow> Inl e
                   | Inr v' \<Rightarrow> Inr (daxpy (c_int np) (- 1) yp_mn yp1, Some v', p1)))
            = Inr (yp', var', p')"
    using run by (simp add: unf w pr)
  have out: "yp' = daxpy (c_int np) (- 1) yp_mn yp1 \<and> p' = p1"
  proof (cases var_yp)
    case None
    thus ?thesis using r2 by simp
  next
    case (Some v)
    thus ?thesis using r2
      by (cases "get_var_mat_chd (m_V m) v krpp krpx lkrxx np ns") auto
  qed
  have "yp' ! i = (\<Sum>l<ns. mat ns krpx l i * wt ! l) - yp_mn ! i" if i: "i < np" for i
    using gpr_predict_nth[OF pr ns np len(1) i] out np i by (simp add: daxpy_nth)
  thus ?thesis using yr w out unfolding krpx_def krxx_def by blast
qed

text \<open>
  Claim C1, at a one by one input. The kernel evaluator returns the constant matrix of
  value \<open>p[0] = 1 - 1e-7\<close>, the optimizer is not called. With \<open>y = [3]\<close> and
  \<open>y_mn = [1]\<close> the weight is \<open>2\<close> and the prediction before the offset is
  \<open>2 - 2e-7\<close>. With \<open>yp_mn = [5]\<close> the function returns \<open>yp = [- 3 - 2e-7]\<close>, the
  prediction minus the query-side mean: \<^verbatim>\<open>ALPHA\<close> is still \<open>- 1\<close> at the second
  \<^verbatim>\<open>daxpy\<close>.
\<close>

theorem gpr_interpolate_mean_subtracts_query_mean:
  "gpr_interpolate_mean (\<lambda>out a b na nb d p npar. replicate (na * nb) (p ! 0))
     (\<lambda>p npar x y ns d. p)
     \<lparr>m_krxx = [0], m_lkrxx = [0], m_krpx = [0], m_krpp = [0], m_y_res = [0], m_wt = [0], m_V = [0]\<rparr>
     [0] [0] [5] 1 [0] [3] [1] 1 1 [1 - 1 / 10 ^ 7] 1 None 0
   = Inr ([- 3 - 2 / 10 ^ 7], None, [1 - 1 / 10 ^ 7])"
  by (simp add: gpr_interpolate_mean_def get_gpr_weights_def gpr_predict_def blas_eval
      chol.simps[of _ 0 0] fsol.simps[of _ _ 0] bsol.simps[of _ _ _ 0])

section \<open>The weights solve the jittered system\<close>

text \<open>
  Claim C4. For a symmetric positive definite kernel \<^verbatim>\<open>krn\<close> of order \<open>ns\<close>, with
  \<open>0 < ns\<close> fitting \<^verbatim>\<open>int\<close>, and a target \<^verbatim>\<open>y\<close> of length \<open>ns\<close>, \<^verbatim>\<open>get_gpr_weights\<close>
  returns, and the weights it returns satisfy \<open>(krn + \<epsilon> I) wt = y\<close> with \<open>\<epsilon> = 1e-7\<close>. The
  working buffer holds, on and below the diagonal, the Cholesky factor of \<open>krn + \<epsilon> I\<close>,
  the matrix with \<open>\<epsilon>\<close> added once to each diagonal entry of the copy, and above the
  diagonal the copied entries of \<^verbatim>\<open>krn\<close>. The buffers \<^verbatim>\<open>krn\<close> and \<^verbatim>\<open>y\<close> are not among
  the buffers the function writes.
\<close>

theorem get_gpr_weights_solves:
  assumes ns: "0 < ns" "ns < 2 ^ 31"
    and len: "length wt = ns" "length krn_chd = ns * ns" "length krn = ns * ns" "length y = ns"
    and sym: "symmetric ns (mat ns krn)" and pd: "pos_def ns (mat ns krn)"
  shows "\<exists>wt' krn_chd'. get_gpr_weights wt krn_chd krn ns d y = Inr (wt', krn_chd')
           \<and> (\<forall>r<ns. (\<Sum>c<ns. jittered ns krn r c * wt' ! c) = y ! r)
           \<and> cholesky_factor ns (mat ns krn_chd') (jittered ns krn)
           \<and> (\<forall>r<ns. \<forall>c<ns. r < c \<longrightarrow> mat ns krn_chd' r c = mat ns krn r c)"
proof -
  let ?A = "jittered ns krn"
  have symA: "symmetric ns ?A" using sym by (rule symmetric_jittered)
  have piv: "0 < pivot ?A j" if "j < ns" for j
    using symA pos_def_jittered[OF pd] that by (rule pos_def_pivot)
  from get_gpr_weights_run[OF ns len piv] obtain wt' krn_chd' where
    run: "get_gpr_weights wt krn_chd krn ns d y = Inr (wt', krn_chd')"
    and ent: "\<forall>i<ns. \<forall>j<ns. mat ns krn_chd' i j = (if j \<le> i then chol ?A i j else mat ns krn i j)"
    and sol: "\<forall>i<ns. wt' ! i = bsol ns (chol ?A) (fsol (chol ?A) (\<lambda>r. y ! r)) i"
    by blast
  have nz: "chol ?A j j \<noteq> 0" if "j < ns" for j
    using piv[OF that] by (simp add: chol_diag)
  have "(\<Sum>c<ns. ?A r c * wt' ! c) = y ! r" if r: "r < ns" for r
  proof -
    have "(\<Sum>c<ns. ?A r c * wt' ! c)
          = (\<Sum>c<ns. ?A r c * bsol ns (chol ?A) (fsol (chol ?A) (\<lambda>r. y ! r)) c)"
      by (rule sum.cong) (use sol in auto)
    also have "\<dots> = y ! r"
      by (rule factor_solve[where L = "chol ?A"]) (use chol_full[OF symA piv] nz r in auto)
    finally show ?thesis .
  qed
  moreover have "cholesky_factor ns (mat ns krn_chd') ?A"
    by (rule cholesky_factor_cong[OF chol_is_factor[of ns ?A]]) (use piv ent in auto)
  ultimately show ?thesis using run ent by auto
qed

theorem get_gpr_weights_solves_witness:
  "\<exists>wt' krn_chd'. get_gpr_weights [0, 0] [0, 0, 0, 0] [4, 2, 2, 2] 2 3 [2, 3] = Inr (wt', krn_chd')
     \<and> (4 + 1 / 10 ^ 7) * wt' ! 0 + 2 * wt' ! 1 = 2
     \<and> 2 * wt' ! 0 + (2 + 1 / 10 ^ 7) * wt' ! 1 = 3
     \<and> krn_chd' ! 2 = 2"
proof -
  have sym: "symmetric 2 (mat 2 [4, 2, 2, 2])"
    by (simp add: symmetric_def mat_def less_Suc_eq numeral_2_eq_2)
  from get_gpr_weights_solves[of 2 "[0, 0]" "[0, 0, 0, 0]" "[4, 2, 2, 2]" "[2, 3]" 3, OF _ _ _ _ _ _ sym pos_def_example]
  obtain wt' krn_chd' where
    run: "get_gpr_weights [0, 0] [0, 0, 0, 0] [4, 2, 2, 2] 2 3 [2, 3] = Inr (wt', krn_chd')"
    and eqs: "\<forall>r<2. (\<Sum>c<2. jittered 2 [4, 2, 2, 2] r c * wt' ! c) = [2, 3] ! r"
    and up: "\<forall>r<2. \<forall>c<2. r < c \<longrightarrow> mat 2 krn_chd' r c = mat 2 [4, 2, 2, 2] r c"
    by auto
  have "(\<Sum>c<2. jittered 2 [4, 2, 2, 2] 0 c * wt' ! c) = [2, 3] ! 0"
       "(\<Sum>c<2. jittered 2 [4, 2, 2, 2] 1 c * wt' ! c) = [2, 3] ! 1"
    using eqs by simp_all
  hence "(4 + 1 / 10 ^ 7) * wt' ! 0 + 2 * wt' ! 1 = 2" "2 * wt' ! 0 + (2 + 1 / 10 ^ 7) * wt' ! 1 = 3"
    by (simp_all add: jittered_def mat_def sum_lessThan_numeral)
  moreover have "mat 2 krn_chd' 0 1 = mat 2 [4, 2, 2, 2] 0 1" using up by simp
  hence "krn_chd' ! 2 = 2" by (simp add: mat_def numeral_2_eq_2)
  ultimately show ?thesis using run by blast
qed

section \<open>Rounding to double\<close>

lemma binade_eq:
  assumes "2 powi e \<le> \<bar>x\<bar>" "\<bar>x\<bar> < 2 powi (e + 1)"
  shows "\<lfloor>log 2 \<bar>x\<bar>\<rfloor> = e"
proof (rule floor_unique)
  have "(0::real) < 2 powi e" by (rule zero_less_power_int) simp
  hence pos: "0 < \<bar>x\<bar>" using assms(1) by linarith
  have "2 powr (of_int e) \<le> \<bar>x\<bar>" using assms(1) by (simp add: powr_real_of_int')
  thus "of_int e \<le> log 2 \<bar>x\<bar>" using pos by (simp add: le_log_iff)
  have "2 powr (of_int (e + 1)) = (2::real) powi (e + 1)" by (intro powr_real_of_int') simp_all
  hence "\<bar>x\<bar> < 2 powr (of_int (e + 1))" using assms(2) by simp
  hence "log 2 \<bar>x\<bar> < of_int (e + 1)" using pos by (subst log_less_iff) simp_all
  thus "log 2 \<bar>x\<bar> < of_int e + 1" by simp
qed

lemma round_even_near:
  assumes "of_int m - 1 / 2 < y" "y < of_int m + 1 / 2"
  shows "round_even y = m"
proof (cases "of_int m \<le> y")
  case True
  hence "\<lfloor>y\<rfloor> = m" using assms by (intro floor_unique) auto
  thus ?thesis using assms by (simp add: round_even_def)
next
  case False
  hence "\<lfloor>y\<rfloor> = m - 1" using assms by (intro floor_unique) auto
  thus ?thesis using assms False by (simp add: round_even_def)
qed

lemma double_round_near:
  assumes "- 1022 \<le> e" "2 powi e \<le> \<bar>x\<bar>" "\<bar>x\<bar> < 2 powi (e + 1)"
    and "of_int m - 1 / 2 < x / 2 powi (e - 52)" "x / 2 powi (e - 52) < of_int m + 1 / 2"
  shows "double_round x = of_int m * 2 powi (e - 52)"
proof -
  have "(0::real) < 2 powi e" by (rule zero_less_power_int) simp
  hence "0 < \<bar>x\<bar>" using assms(2) by linarith
  hence "x \<noteq> 0" by simp
  moreover have "max \<lfloor>log 2 \<bar>x\<bar>\<rfloor> (- 1022) = e"
    using binade_eq[OF assms(2,3)] assms(1) by simp
  ultimately show ?thesis
    using round_even_near[OF assms(4,5)] by (simp add: double_round_def Let_def)
qed

lemma eps_double: "double_round (1 / 10 ^ 7) = 7555786372591432 / 2 ^ 76"
  using double_round_near[of "- 24" "1 / 10 ^ 7" 7555786372591432]
  by (simp add: power_int_minus)

lemma jitter_lost: "double_round (2 ^ 30 + double_round (1 / 10 ^ 7)) = 2 ^ 30"
  unfolding eps_double
  using double_round_near[of 30 "2 ^ 30 + 7555786372591432 / 2 ^ 76" "2 ^ 52"]
  by (simp add: power_int_minus)

lemma sqrt_2_30: "sqrt (2 ^ 30) = 2 ^ 15"
  by (rule real_sqrt_unique) simp_all

lemma jittered_big_pos_def:
  "symmetric 2 (jittered 2 [2 ^ 30, 2 ^ 30, 2 ^ 30, 2 ^ 30])
   \<and> pos_def 2 (jittered 2 [2 ^ 30, 2 ^ 30, 2 ^ 30, 2 ^ 30])"
proof
  show "symmetric 2 (jittered 2 [2 ^ 30, 2 ^ 30, 2 ^ 30, 2 ^ 30])"
    by (simp add: symmetric_def jittered_def mat_def less_Suc_eq numeral_2_eq_2)
  show "pos_def 2 (jittered 2 [2 ^ 30, 2 ^ 30, 2 ^ 30, 2 ^ 30])"
    unfolding pos_def_def
  proof (intro allI impI)
    fix x :: "nat \<Rightarrow> real" assume "\<exists>i<2. x i \<noteq> 0"
    hence nz: "x 0 \<noteq> 0 \<or> x 1 \<noteq> 0" by (auto simp: less_Suc_eq numeral_2_eq_2)
    have j: "jittered 2 [2 ^ 30, 2 ^ 30, 2 ^ 30, 2 ^ 30]
             = (\<lambda>i j. mat 2 [2 ^ 30, 2 ^ 30, 2 ^ 30, 2 ^ 30] i j + (if i = j then 1 / 10 ^ 7 else 0))"
      by (intro ext) (simp add: jittered_def)
    have "quad_form 2 (mat 2 [2 ^ 30, 2 ^ 30, 2 ^ 30, 2 ^ 30]) x = 2 ^ 30 * (x 0 + x 1)\<^sup>2"
      by (simp add: quad_form_def mat_def sum_lessThan_numeral power2_eq_square algebra_simps)
    hence "0 \<le> quad_form 2 (mat 2 [2 ^ 30, 2 ^ 30, 2 ^ 30, 2 ^ 30]) x" by simp
    moreover have "0 < (x 0)\<^sup>2 + (x 1)\<^sup>2"
      using nz by (simp add: sum_power2_gt_zero_iff)
    hence "0 < (\<Sum>i<2. x i * x i)"
      by (simp add: sum_lessThan_numeral power2_eq_square)
    ultimately show "0 < quad_form 2 (jittered 2 [2 ^ 30, 2 ^ 30, 2 ^ 30, 2 ^ 30]) x"
      unfolding j quad_form_jitter by (simp add: add_nonneg_pos)
  qed
qed

lemma jitter_double_loop:
  "for_loop 2 (\<lambda>i b. b[i * 2 + i := double_round (b ! (i * 2 + i) + double_round (1 / 10 ^ 7))])
     [2 ^ 30, 2 ^ 30, 2 ^ 30, 2 ^ 30] = [2 ^ 30, 2 ^ 30, 2 ^ 30, 2 ^ 30]"
proof -
  have "for_loop 2 (\<lambda>i b. b[i * 2 + i := double_round (b ! (i * 2 + i) + double_round (1 / 10 ^ 7))])
     [2 ^ 30, 2 ^ 30, 2 ^ 30, 2 ^ 30]
    = [double_round (2 ^ 30 + double_round (1 / 10 ^ 7)), 2 ^ 30, 2 ^ 30,
       double_round (2 ^ 30 + double_round (1 / 10 ^ 7))]"
    by (simp only: for_loop_numeral pred_numeral_simps for_loop.simps One_nat_def) 
       (simp add: list_update_numeral del: power_numeral)
  thus ?thesis by (simp only: jitter_lost)
qed

lemma dposv_big: "dposv_L 2 1 [2 ^ 30, 2 ^ 30, 2 ^ 30, 2 ^ 30] 2 [1, 1] 2
    = ([2 ^ 15, 2 ^ 15, 2 ^ 30, 0], [1, 1], 2)"
  using sqrt_2_30 by (simp add: blas_eval solve_eval num_eval)

section \<open>The status of the factorization\<close>

text \<open>
  Claim C7 as stated, at the kernel of order two with all four entries \<open>2\<^sup>3\<^sup>0\<close>. The
  matrix \<open>krn + \<epsilon> I\<close> is symmetric positive definite. Doubles next to \<open>2\<^sup>3\<^sup>0\<close> are \<open>2\<^sup>-\<^sup>2\<^sup>2\<close>
  apart, more than twice \<open>1e-7\<close>, so \<^verbatim>\<open>krn_chd[i * ns + i] += eps\<close> stores \<open>2\<^sup>3\<^sup>0\<close> again and
  \<^verbatim>\<open>dposv\<close> is given the singular matrix \<^verbatim>\<open>krn\<close>: the factor starts with \<open>2\<^sup>1\<^sup>5\<close>, \<open>2\<^sup>1\<^sup>5\<close>,
  the second pivot is \<open>0\<close>, the status is two and the call ends at the failed assertion.
\<close>

theorem get_gpr_weights_jitter_lost:
  "symmetric 2 (jittered 2 [2 ^ 30, 2 ^ 30, 2 ^ 30, 2 ^ 30])
   \<and> pos_def 2 (jittered 2 [2 ^ 30, 2 ^ 30, 2 ^ 30, 2 ^ 30])
   \<and> get_gpr_weights_double [0, 0] [0, 0, 0, 0] [2 ^ 30, 2 ^ 30, 2 ^ 30, 2 ^ 30] 2 3 [1, 1]
       = Inl (AssertFailed 2)"
proof -
  have c1: "for_loop (2 * 2) (\<lambda>i b. b[i := [2 ^ 30, 2 ^ 30, 2 ^ 30, 2 ^ 30 :: real] ! i]) [0, 0, 0, 0]
            = [2 ^ 30, 2 ^ 30, 2 ^ 30, 2 ^ 30]"
    by (rule copy_loop_all) simp_all
  have c2: "for_loop 2 (\<lambda>i b. b[i := [1, 1 :: real] ! i]) [0, 0] = [1, 1]"
    by (rule copy_loop_all) simp_all
  have c3: "c_int 2 = 2" by (simp add: c_int_id)
  have "get_gpr_weights_double [0, 0] [0, 0, 0, 0] [2 ^ 30, 2 ^ 30, 2 ^ 30, 2 ^ 30] 2 3 [1, 1]
        = Inl (AssertFailed 2)"
    unfolding get_gpr_weights_double_def Let_def c1 c2 c3 jitter_double_loop dposv_big
    by simp
  thus ?thesis using jittered_big_pos_def by simp
qed

text \<open>
  Claim C7 as amended, in exact arithmetic. For a symmetric \<open>krn + \<epsilon> I\<close> of order \<open>ns\<close>,
  with \<open>0 < ns\<close> fitting \<^verbatim>\<open>int\<close>: when \<open>krn + \<epsilon> I\<close> is positive definite, \<^verbatim>\<open>dposv\<close> reports
  status zero, the assertion holds and \<^verbatim>\<open>get_gpr_weights\<close> returns; when it is not, the
  status is positive and the call ends at the failed assertion with that status, without
  a second attempt.
\<close>

theorem get_gpr_weights_status:
  assumes ns: "0 < ns" "ns < 2 ^ 31"
    and len: "length wt = ns" "length krn_chd = ns * ns" "length krn = ns * ns" "length y = ns"
    and sym: "symmetric ns (jittered ns krn)"
  shows "(pos_def ns (jittered ns krn) \<longrightarrow>
            (\<exists>wt' krn_chd'. get_gpr_weights wt krn_chd krn ns d y = Inr (wt', krn_chd')))
       \<and> (\<not> pos_def ns (jittered ns krn) \<longrightarrow>
            (\<exists>info. 0 < info \<and> get_gpr_weights wt krn_chd krn ns d y = Inl (AssertFailed info)))"
proof (intro conjI impI)
  assume pd: "pos_def ns (jittered ns krn)"
  have piv: "0 < pivot (jittered ns krn) j" if "j < ns" for j
    using sym pd that by (rule pos_def_pivot)
  from get_gpr_weights_run[OF ns len piv]
  show "\<exists>wt' krn_chd'. get_gpr_weights wt krn_chd krn ns d y = Inr (wt', krn_chd')" by blast
next
  assume npd: "\<not> pos_def ns (jittered ns krn)"
  let ?a = "for_loop ns (\<lambda>i b. b[i * ns + i := b ! (i * ns + i) + 1 / 10 ^ 7]) krn"
  from npd pivots_pos_def[OF sym] obtain j where j: "j < ns" "pivot (jittered ns krn) j \<le> 0"
    by (meson not_le)
  have "pivot (mat ns ?a) j = pivot (jittered ns krn) j"
    by (rule pivot_cong[where n = ns]) (use jitter_buffer[OF len(3)] j in auto)
  hence "pivot (mat ns ?a) j \<le> 0" using j by simp
  from dpotrf_L_fails[OF ns(1) j(1) this] obtain a' info where
    f: "dpotrf_L (int ns) ?a (int ns) = (a', info)" "0 < info" by blast
  hence "dposv_L (int ns) 1 ?a (int ns) y (int ns) = (a', y, info)"
    using ns by (simp add: dposv_L_def)
  hence "get_gpr_weights wt krn_chd krn ns d y = Inl (AssertFailed info)"
    using f(2) len ns by (simp add: get_gpr_weights_def copy_loop_all c_int_id)
  thus "\<exists>info. 0 < info \<and> get_gpr_weights wt krn_chd krn ns d y = Inl (AssertFailed info)"
    using f(2) by blast
qed

theorem get_gpr_weights_status_witness:
  "get_gpr_weights [0, 0] [0, 0, 0, 0] [4 - 1 / 10 ^ 7, 2, 2, 2 - 1 / 10 ^ 7] 2 3 [2, 3]
     = Inr ([- 1 / 2, 2], [2, 1, 2, 1])
   \<and> get_gpr_weights [0] [0] [- 1] 1 3 [2] = Inl (AssertFailed 1)"
proof -
  let ?k = "[4 - 1 / 10 ^ 7, 2, 2, 2 - 1 / 10 ^ 7] :: real list"
  have sym: "symmetric 2 (jittered 2 ?k)"
    by (simp add: symmetric_def jittered_def mat_def less_Suc_eq numeral_2_eq_2)
  have pd: "pos_def 2 (jittered 2 ?k)"
  proof (rule pivots_pos_def[OF sym])
    fix j :: nat assume "j < 2"
    hence "j = 0 \<or> j = 1" by auto
    thus "0 < pivot (jittered 2 ?k) j"
      by (auto simp: pivot_def jittered_def mat_def solve_eval)
  qed
  have sym1: "symmetric 1 (jittered 1 [- 1])" by (simp add: symmetric_def)
  have npd: "\<not> pos_def 1 (jittered 1 [- 1])"
    by (auto simp: pos_def_def quad_form_def jittered_def mat_def intro!: exI[of _ "\<lambda>i. 1"])
  have ok: "\<exists>wt' krn_chd'. get_gpr_weights [0, 0] [0, 0, 0, 0] ?k 2 3 [2, 3] = Inr (wt', krn_chd')"
    using get_gpr_weights_status[of 2 "[0, 0]" "[0, 0, 0, 0]" ?k "[2, 3]" 3, OF _ _ _ _ _ _ sym] pd
    by simp
  have bad: "\<exists>info. 0 < info \<and> get_gpr_weights [0] [0] [- 1] 1 3 [2] = Inl (AssertFailed info)"
    using get_gpr_weights_status[of 1 "[0]" "[0]" "[- 1]" "[2]" 3, OF _ _ _ _ _ _ sym1] npd
    by simp
  have ev1: "get_gpr_weights [0, 0] [0, 0, 0, 0] ?k 2 3 [2, 3] = Inr ([- 1 / 2, 2], [2, 1, 2, 1])"
    by (simp add: get_gpr_weights_def blas_eval solve_eval num_eval)
  have ev2: "get_gpr_weights [0] [0] [- 1] 1 3 [2] = Inl (AssertFailed 1)"
    by (simp add: get_gpr_weights_def blas_eval solve_eval num_eval)
  show ?thesis using ok bad ev1 ev2 by simp
qed

section \<open>The two posterior covariance variants\<close>

text \<open>
  Claim C3. Let \<open>0 < ns, np\<close> fit \<^verbatim>\<open>int\<close>, let the query-query kernel \<^verbatim>\<open>krnpp\<close> be
  symmetric, \<open>krn + \<epsilon> I\<close> symmetric positive definite, and let the buffer \<open>L\<close> hold a lower
  Cholesky factor of \<open>krn + \<epsilon> I\<close> on and below its diagonal. Then \<^verbatim>\<open>get_var_mat\<close> on
  \<^verbatim>\<open>krn\<close> and \<^verbatim>\<open>get_var_mat_chd\<close> on \<open>L\<close> both return, with the same matrix \<^verbatim>\<open>var\<close>, and
  that matrix is \<open>krnpp - krnp\<^sup>T (krn + \<epsilon> I)\<^sup>-\<^sup>1 krnp\<close>: the system \<open>(krn + \<epsilon> I) X = krnp\<close>
  has a solution, and \<open>var = krnpp - krnp\<^sup>T X\<close> for every solution \<open>X\<close>.
\<close>

theorem posterior_covariance_variants_agree:
  assumes ns: "0 < ns" "ns < 2 ^ 31" and np: "0 < np" "np < 2 ^ 31"
    and len: "length V = ns * np" "length var = np * np" "length krnpp = np * np"
      "length krnp = ns * np" "length krn = ns * ns"
    and len': "length V' = ns * np" "length var' = np * np"
    and symkpp: "symmetric np (mat np krnpp)"
    and sym: "symmetric ns (jittered ns krn)" and pd: "pos_def ns (jittered ns krn)"
    and cf: "cholesky_factor ns (mat ns L) (jittered ns krn)"
  shows "\<exists>v krn'. get_var_mat V var krnpp krnp krn np ns = Inr (v, krn')
           \<and> get_var_mat_chd V' var' krnpp krnp L np ns = Inr v
           \<and> (\<exists>X. solves ns np (jittered ns krn) X (mat ns krnp))
           \<and> (\<forall>X. solves ns np (jittered ns krn) X (mat ns krnp) \<longrightarrow>
                 (\<forall>i<np. \<forall>j<np. mat np v i j
                    = mat np krnpp i j - (\<Sum>l<ns. mat ns krnp l i * X l j)))"
proof -
  let ?A = "jittered ns krn"
  define Z where "Z l j = fsol (chol ?A) (\<lambda>r. mat ns krnp r j) l" for l j
  define W where "W l j = bsol ns (chol ?A) (fsol (chol ?A) (\<lambda>r. mat ns krnp r j)) l" for l j
  have piv: "0 < pivot ?A j" if "j < ns" for j using sym pd that by (rule pos_def_pivot)
  have nz: "chol ?A j j \<noteq> 0" if "j < ns" for j using piv[OF that] by (simp add: chol_diag)
  have low: "mat ns L r c = chol ?A r c" if "c \<le> r" "r < ns" for r c
    using cholesky_factor_unique[OF cf, of c] that by simp
  from get_var_mat_run[OF ns np len piv] obtain v krn' where
    r1: "get_var_mat V var krnpp krnp krn np ns = Inr (v, krn')" and lv: "length v = np * np"
    and e1: "\<forall>i<np. \<forall>j<np. mat np v i j = mat np krnpp i j - (\<Sum>l<ns. mat ns krnp l i * W l j)"
    unfolding W_def by blast
  from get_var_mat_chd_run[OF ns np len'(1,2) len(3,4) low] obtain v' where
    r2: "get_var_mat_chd V' var' krnpp krnp L np ns = Inr v'" and lv': "length v' = np * np"
    and e2: "\<forall>i<np. \<forall>j<np. mat np v' i j =
                 (if i < j then mat np krnpp j i - (\<Sum>l<ns. Z l j * Z l i)
                  else mat np krnpp i j - (\<Sum>l<ns. Z l i * Z l j))"
    unfolding Z_def by blast
  have gram: "(\<Sum>l<ns. Z l i * Z l j) = (\<Sum>l<ns. mat ns krnp l i * W l j)" for i j
    unfolding Z_def W_def by (rule tri_gram) (use nz in auto)
  have "v' = v"
  proof (rule buffer_eqI[OF lv' lv])
    fix i j assume i: "i < np" and j: "j < np"
    have "mat np krnpp j i = mat np krnpp i j" using symkpp i j by (simp add: symmetric_def)
    moreover have "(\<Sum>l<ns. Z l j * Z l i) = (\<Sum>l<ns. Z l i * Z l j)" by (simp add: mult.commute)
    ultimately have "mat np v' i j = mat np krnpp i j - (\<Sum>l<ns. Z l i * Z l j)"
      using e2 i j by simp
    thus "mat np v' i j = mat np v i j" using e1 i j gram by simp
  qed
  have Wsol: "(\<Sum>c<ns. ?A r c * W c j) = mat ns krnp r j" if "r < ns" for r j
    unfolding W_def
    by (rule factor_solve[where L = "chol ?A"]) (use chol_full[OF sym piv] nz that in auto)
  hence ex: "solves ns np ?A W (mat ns krnp)" by (simp add: solves_def)
  have "mat np v i j = mat np krnpp i j - (\<Sum>l<ns. mat ns krnp l i * X l j)"
    if X: "solves ns np ?A X (mat ns krnp)" and i: "i < np" and j: "j < np" for X i j
  proof -
    have "(\<Sum>l<ns. mat ns krnp l i * X l j) = (\<Sum>c<ns. W c i * mat ns krnp c j)"
      by (rule solve_sym[OF sym]) (use Wsol X j in \<open>auto simp: solves_def\<close>)
    moreover have "(\<Sum>l<ns. mat ns krnp l i * W l j) = (\<Sum>c<ns. W c i * mat ns krnp c j)"
      by (rule solve_sym[OF sym]) (use Wsol in auto)
    ultimately show ?thesis using e1 i j by simp
  qed
  thus ?thesis using r1 r2 \<open>v' = v\<close> ex by blast
qed

theorem posterior_covariance_variants_agree_witness:
  "get_var_mat [0, 0, 0, 0] [0, 0, 0, 0] [6, 3, 3, 5] [2, 3, 4, 2]
     [4 - 1 / 10 ^ 7, 2, 2, 2 - 1 / 10 ^ 7] 2 2 = Inr ([1, 1, 1, 1], [2, 1, 2, 1])
   \<and> get_var_mat_chd [9, 9, 9, 9] [8, 8, 8, 8] [6, 3, 3, 5] [2, 3, 4, 2] [2, 1, 7, 1] 2 2
       = Inr [1, 1, 1, 1]"
proof -
  let ?k = "[4 - 1 / 10 ^ 7, 2, 2, 2 - 1 / 10 ^ 7] :: real list"
  have sym: "symmetric 2 (jittered 2 ?k)"
    by (simp add: symmetric_def jittered_def mat_def less_Suc_eq numeral_2_eq_2)
  have pd: "pos_def 2 (jittered 2 ?k)"
  proof (rule pivots_pos_def[OF sym])
    fix j :: nat assume "j < 2"
    hence "j = 0 \<or> j = 1" by auto
    thus "0 < pivot (jittered 2 ?k) j"
      by (auto simp: pivot_def jittered_def mat_def solve_eval)
  qed
  have symkpp: "symmetric 2 (mat 2 [6, 3, 3, 5])"
    by (simp add: symmetric_def mat_def less_Suc_eq numeral_2_eq_2)
  have cf: "cholesky_factor 2 (mat 2 [2, 1, 7, 1]) (jittered 2 ?k)"
    by (simp add: cholesky_factor_def jittered_def mat_def less_Suc_eq numeral_2_eq_2)
  from posterior_covariance_variants_agree[of 2 2 "[0, 0, 0, 0]" "[0, 0, 0, 0]" "[6, 3, 3, 5]"
      "[2, 3, 4, 2]" ?k "[9, 9, 9, 9]" "[8, 8, 8, 8]" "[2, 1, 7, 1]",
      OF _ _ _ _ _ _ _ _ _ _ _ symkpp sym pd cf]
  obtain v krn' where
    "get_var_mat [0, 0, 0, 0] [0, 0, 0, 0] [6, 3, 3, 5] [2, 3, 4, 2] ?k 2 2 = Inr (v, krn')"
    "get_var_mat_chd [9, 9, 9, 9] [8, 8, 8, 8] [6, 3, 3, 5] [2, 3, 4, 2] [2, 1, 7, 1] 2 2 = Inr v"
    by auto
  moreover have "get_var_mat [0, 0, 0, 0] [0, 0, 0, 0] [6, 3, 3, 5] [2, 3, 4, 2] ?k 2 2
                 = Inr ([1, 1, 1, 1], [2, 1, 2, 1])"
    by (simp add: get_var_mat_def blas_eval solve_eval num_eval)
  ultimately show ?thesis by simp
qed

section \<open>The sampler\<close>

text \<open>
  Within the range of \<^verbatim>\<open>int\<close>. Let \<open>0 < ns\<close> with \<open>ns * ns\<close> fitting \<^verbatim>\<open>int\<close> (the count
  that \<^verbatim>\<open>sample_gp\<close> passes to \<^verbatim>\<open>dcopy\<close>), let \<open>kxx + \<epsilon> I\<close> be symmetric positive
  definite and let the random source write \<open>ns\<close> variates \<open>z\<close>. Then \<^verbatim>\<open>sample_gp\<close> returns
  \<open>y = L z\<close>, plus the mean entry by entry when a mean is given, where \<open>L\<close> is a lower
  Cholesky factor of \<open>kxx + \<epsilon> I\<close>; and it returns this same vector whatever \<^verbatim>\<open>malloc\<close>
  left in the working block and whatever \<^verbatim>\<open>y\<close> held before the call.
\<close>

lemma sample_gp_in_range:
  assumes ns: "0 < ns" "ns * ns < 2 ^ 31"
    and len: "length lkxx0 = ns * ns" "length kxx = ns * ns" "length y = ns"
      "length (draw ns seed) = ns"
    and sym: "symmetric ns (jittered ns kxx)" and pd: "pos_def ns (jittered ns kxx)"
  shows "\<exists>y' L. sample_gp draw lkxx0 y mn kxx ns seed = Inr y'
           \<and> cholesky_factor ns L (jittered ns kxx)
           \<and> (\<forall>i<ns. y' ! i = (\<Sum>k<Suc i. L i k * draw ns seed ! k)
                 + (case mn of None \<Rightarrow> 0 | Some m \<Rightarrow> m ! i))
           \<and> (\<forall>lkxx0' y0. length lkxx0' = ns * ns \<and> length y0 = ns \<longrightarrow>
                 sample_gp draw lkxx0' y0 mn kxx ns seed = Inr y')"
proof -
  have piv: "0 < pivot (jittered ns kxx) j" if "j < ns" for j
    using sym pd that by (rule pos_def_pivot)
  from sample_gp_run[where draw = draw and seed = seed and mn = mn, OF ns len piv] obtain y' where
    "sample_gp draw lkxx0 y mn kxx ns seed = Inr y'"
    "\<forall>i<ns. y' ! i = (\<Sum>k<Suc i. chol (jittered ns kxx) i k * draw ns seed ! k)
                 + (case mn of None \<Rightarrow> 0 | Some m \<Rightarrow> m ! i)"
    "\<forall>lkxx0' y0. length lkxx0' = ns * ns \<and> length y0 = ns \<longrightarrow>
                 sample_gp draw lkxx0' y0 mn kxx ns seed = Inr y'"
    by blast
  moreover have "cholesky_factor ns (chol (jittered ns kxx)) (jittered ns kxx)"
    using piv by (rule chol_is_factor)
  ultimately show ?thesis by blast
qed

lemma sample_gp_in_range_example:
  "sample_gp (\<lambda>n s. [1, 2]) [0, 0, 0, 0] [0, 0] (Some [10, 20])
     [4 - 1 / 10 ^ 7, 2, 2, 2 - 1 / 10 ^ 7] 2 42 = Inr [12, 23]
   \<and> sample_gp (\<lambda>n s. [1, 2]) [5, 6, 7, 8] [3, 4] (Some [10, 20])
     [4 - 1 / 10 ^ 7, 2, 2, 2 - 1 / 10 ^ 7] 2 42 = Inr [12, 23]"
proof -
  let ?k = "[4 - 1 / 10 ^ 7, 2, 2, 2 - 1 / 10 ^ 7] :: real list"
  have sym: "symmetric 2 (jittered 2 ?k)"
    by (simp add: symmetric_def jittered_def mat_def less_Suc_eq numeral_2_eq_2)
  have pd: "pos_def 2 (jittered 2 ?k)"
  proof (rule pivots_pos_def[OF sym])
    fix j :: nat assume "j < 2"
    hence "j = 0 \<or> j = 1" by auto
    thus "0 < pivot (jittered 2 ?k) j"
      by (auto simp: pivot_def jittered_def mat_def solve_eval)
  qed
  from sample_gp_in_range[of 2 "[0, 0, 0, 0]" ?k "[0, 0]" "\<lambda>n s. [1, 2]" 42 "Some [10, 20]",
      OF _ _ _ _ _ _ sym pd]
  obtain y' where
    "sample_gp (\<lambda>n s. [1, 2]) [0, 0, 0, 0] [0, 0] (Some [10, 20]) ?k 2 42 = Inr y'"
    "\<forall>lkxx0' y0. length lkxx0' = 2 * 2 \<and> length y0 = 2 \<longrightarrow>
       sample_gp (\<lambda>n s. [1, 2]) lkxx0' y0 (Some [10, 20]) ?k 2 42 = Inr y'"
    by auto
  moreover have "sample_gp (\<lambda>n s. [1, 2]) [0, 0, 0, 0] [0, 0] (Some [10, 20]) ?k 2 42 = Inr [12, 23]"
    by (simp add: sample_gp_def fill_normal_rnd_def blas_eval solve_eval num_eval)
  ultimately show ?thesis by simp
qed

lemma find_upt_first: "0 < n \<Longrightarrow> P 0 \<Longrightarrow> find P [0..<n] = Some 0"
  by (simp add: upt_conv_Cons)

lemma sample_gp_overflow_fails:
  assumes ns: "0 < ns" "ns < 2 ^ 31" and ov: "c_int (ns * ns) \<le> 0"
    and len: "length lkxx0 = ns * ns" and neg: "lkxx0 ! 0 + 1 / 10 ^ 7 \<le> 0"
  shows "sample_gp draw lkxx0 y mn kxx ns seed = Inl (AssertFailed 1)"
proof -
  let ?a = "for_loop ns (\<lambda>i b. b[i * ns + i := b ! (i * ns + i) + 1 / 10 ^ 7]) lkxx0"
  have "mat ns ?a 0 0 = jittered ns lkxx0 0 0" by (rule jitter_buffer[OF len ns(1) ns(1)])
  hence "pivot (mat ns ?a) 0 \<le> 0" using neg by (simp add: pivot_def jittered_def mat_def)
  hence "find (\<lambda>j. pivot (mat ns ?a) j \<le> 0) [0..<ns] = Some 0"
    using ns(1) by (intro find_upt_first)
  hence "\<exists>a'. dpotrf_L (int ns) ?a (int ns) = (a', 1)"
    using ns(1) by (simp add: dpotrf_L_def)
  then obtain a' where "dpotrf_L (int ns) ?a (int ns) = (a', 1)" ..
  thus ?thesis
    using ov ns by (simp add: sample_gp_def dcopy_def c_int_id Let_def)
qed

text \<open>
  Claim C8, at \<open>ns = 46341\<close>. There \<open>ns * ns = 2147488281\<close> exceeds the largest \<^verbatim>\<open>int\<close>,
  the count \<^verbatim>\<open>N\<close> that \<^verbatim>\<open>sample_gp\<close> passes to \<^verbatim>\<open>dcopy\<close> is negative and nothing is
  copied: the matrix that is factorized is the block from \<^verbatim>\<open>malloc\<close> with the jitter on
  its diagonal. The result is the same for any two covariance matrices, and with a
  block of entries \<open>- 1\<close> the call ends at the failed assertion, whatever the covariance.
\<close>

theorem sample_gp_large_ignores_covariance:
  "sample_gp draw lkxx0 y mn kxx 46341 seed = sample_gp draw lkxx0 y mn kxx' 46341 seed
   \<and> sample_gp draw (replicate (46341 * 46341) (- 1)) y mn kxx 46341 seed = Inl (AssertFailed 1)"
proof
  show "sample_gp draw lkxx0 y mn kxx 46341 seed = sample_gp draw lkxx0 y mn kxx' 46341 seed"
    by (simp add: sample_gp_def dcopy_def c_int_def)
  have "c_int (46341 * 46341) \<le> 0" by (simp add: c_int_def)
  moreover have "length (replicate (46341 * 46341) (- 1 :: real)) = 46341 * 46341"
    by (simp only: length_replicate)
  moreover have "replicate (46341 * 46341) (- 1 :: real) ! 0 = - 1"
    by (rule nth_replicate) simp
  hence "replicate (46341 * 46341) (- 1 :: real) ! 0 + 1 / 10 ^ 7 \<le> 0" by (simp only:) simp
  ultimately show "sample_gp draw (replicate (46341 * 46341) (- 1)) y mn kxx 46341 seed
                   = Inl (AssertFailed 1)"
    by (intro sample_gp_overflow_fails) simp_all
qed

end
